theory Spec2Isabelle
  imports Complex_Main "HOL-Library.Word"
begin

section \<open>Floating-point values and rounding\<close>

text \<open>
  The kernels of \<^verbatim>\<open>fake_quantize_per_tensor_affine.cu\<close> compute on C++ \<^verbatim>\<open>float\<close>
  (IEEE 754 binary32) and \<^verbatim>\<open>double\<close> (binary64) values.  A value is a NaN, an infinity,
  the negative zero, or a finite rational (\<open>Fin 0\<close> is the positive zero).  Every binary32
  value is also a binary64 value, so one type serves both formats; an operation computes
  the exact result and rounds it to the format of its C++ result type.
\<close>

datatype fp = NaN | PInf | NInf | NZero | Fin rat

fun is_nan :: "fp \<Rightarrow> bool" where
  "is_nan NaN = True"
| "is_nan _ = False"

fun is_inf :: "fp \<Rightarrow> bool" where
  "is_inf PInf = True"
| "is_inf NInf = True"
| "is_inf _ = False"

fun is_zero :: "fp \<Rightarrow> bool" where
  "is_zero NZero = True"
| "is_zero (Fin r) = (r = 0)"
| "is_zero _ = False"

fun sign_bit :: "fp \<Rightarrow> bool" where
  "sign_bit NInf = True"
| "sign_bit NZero = True"
| "sign_bit (Fin r) = (r < 0)"
| "sign_bit _ = False"

fun fval :: "fp \<Rightarrow> rat" where
  "fval (Fin r) = r"
| "fval _ = 0"

definition inf_of :: "bool \<Rightarrow> fp" where
  "inf_of negative = (if negative then NInf else PInf)"

definition zero_of :: "bool \<Rightarrow> fp" where
  "zero_of negative = (if negative then NZero else Fin 0)"

text \<open>\<open>bits n\<close> is the number of binary digits of \<open>n\<close>; \<open>ilog2 a\<close> is \<open>\<lfloor>log\<^sub>2 a\<rfloor>\<close> for \<open>a > 0\<close>.\<close>

function bits :: "int \<Rightarrow> nat" where
  "bits n = (if n \<le> 0 then 0 else Suc (bits (n div 2)))"
  by pat_completeness auto
termination
  by (relation "measure nat") auto

declare bits.simps [simp del]

definition ilog2 :: "rat \<Rightarrow> int" where
  "ilog2 a = (if 1 \<le> a then int (bits \<lfloor>a\<rfloor>) - 1
              else - int (bits (\<lceil>1 / a\<rceil> - 1)))"

text \<open>Round to the nearest integer, ties to the even one.\<close>

definition rne :: "rat \<Rightarrow> int" where
  "rne x = (let f = \<lfloor>x\<rfloor>; d = x - of_int f in
            if d < 1 / 2 then f
            else if 1 / 2 < d then f + 1
            else if even f then f else f + 1)"

text \<open>
  \<open>round_mag p emin a\<close> rounds the magnitude \<open>a\<close> to \<open>p\<close> significant bits, to nearest and
  ties to even, with the exponent not below \<open>emin\<close> (gradual underflow).  \<open>fround\<close> adds
  the sign, the signed zero, and overflow to infinity when the rounded magnitude reaches
  \<open>2 ^ (emax + 1)\<close>, that is, when its exponent exceeds \<open>emax\<close>.
\<close>

definition round_mag :: "nat \<Rightarrow> int \<Rightarrow> rat \<Rightarrow> rat" where
  "round_mag p emin a =
     (let u = 2 powi (max (ilog2 a) emin - int p + 1) in of_int (rne (a / u)) * u)"

definition fround :: "nat \<Rightarrow> int \<Rightarrow> int \<Rightarrow> rat \<Rightarrow> fp" where
  "fround p emin emax v =
     (let m = round_mag p emin \<bar>v\<bar> in
      if m = 0 then zero_of (v < 0)
      else if emax < ilog2 m then inf_of (v < 0)
      else Fin (if v < 0 then - m else m))"

definition round32 :: "rat \<Rightarrow> fp" where
  "round32 = fround 24 (- 126) 127"

definition round64 :: "rat \<Rightarrow> fp" where
  "round64 = fround 53 (- 1022) 1023"

subsection \<open>Arithmetic\<close>

definition fneg :: "fp \<Rightarrow> fp" where
  "fneg a = (case a of NaN \<Rightarrow> NaN | PInf \<Rightarrow> NInf | NInf \<Rightarrow> PInf | NZero \<Rightarrow> Fin 0
             | Fin r \<Rightarrow> (if r = 0 then NZero else Fin (- r)))"

definition fmul :: "(rat \<Rightarrow> fp) \<Rightarrow> fp \<Rightarrow> fp \<Rightarrow> fp" where
  "fmul rd a b =
     (if is_nan a \<or> is_nan b then NaN
      else if (is_inf a \<and> is_zero b) \<or> (is_zero a \<and> is_inf b) then NaN
      else if is_inf a \<or> is_inf b then inf_of (sign_bit a \<noteq> sign_bit b)
      else if is_zero a \<or> is_zero b then zero_of (sign_bit a \<noteq> sign_bit b)
      else rd (fval a * fval b))"

definition fdiv :: "(rat \<Rightarrow> fp) \<Rightarrow> fp \<Rightarrow> fp \<Rightarrow> fp" where
  "fdiv rd a b =
     (if is_nan a \<or> is_nan b then NaN
      else if (is_inf a \<and> is_inf b) \<or> (is_zero a \<and> is_zero b) then NaN
      else if is_inf a \<or> is_zero b then inf_of (sign_bit a \<noteq> sign_bit b)
      else if is_inf b \<or> is_zero a then zero_of (sign_bit a \<noteq> sign_bit b)
      else rd (fval a / fval b))"

definition fadd :: "(rat \<Rightarrow> fp) \<Rightarrow> fp \<Rightarrow> fp \<Rightarrow> fp" where
  "fadd rd a b =
     (if is_nan a \<or> is_nan b then NaN
      else if is_inf a then (if is_inf b \<and> sign_bit a \<noteq> sign_bit b then NaN else a)
      else if is_inf b then b
      else if fval a + fval b = 0 then zero_of (sign_bit a \<and> sign_bit b)
      else rd (fval a + fval b))"

definition fsub :: "(rat \<Rightarrow> fp) \<Rightarrow> fp \<Rightarrow> fp \<Rightarrow> fp" where
  "fsub rd a b = fadd rd a (fneg b)"

text \<open>
  The fused multiply-add \<open>a * b + c\<close>: the exact product and sum, rounded once.  It is a
  NaN when an operand is, when the product is of an infinity and a zero, and when the
  product and \<open>c\<close> are infinities of opposite signs; an exact zero result is negative only
  when the product and \<open>c\<close> both are.
\<close>

definition fma :: "(rat \<Rightarrow> fp) \<Rightarrow> fp \<Rightarrow> fp \<Rightarrow> fp \<Rightarrow> fp" where
  "fma rd a b c =
     (if is_nan a \<or> is_nan b \<or> is_nan c then NaN
      else if (is_inf a \<and> is_zero b) \<or> (is_zero a \<and> is_inf b) then NaN
      else if is_inf a \<or> is_inf b then
        (if is_inf c \<and> sign_bit c \<noteq> (sign_bit a \<noteq> sign_bit b) then NaN
         else inf_of (sign_bit a \<noteq> sign_bit b))
      else if is_inf c then c
      else if fval a * fval b + fval c = 0
        then zero_of ((sign_bit a \<noteq> sign_bit b) \<and> sign_bit c)
      else rd (fval a * fval b + fval c))"

text \<open>The comparisons \<^verbatim>\<open><\<close> and \<^verbatim>\<open><=\<close>: false on a NaN, and the two zeros are equal.\<close>

fun cls :: "fp \<Rightarrow> int" where
  "cls PInf = 1"
| "cls NInf = - 1"
| "cls _ = 0"

definition flt :: "fp \<Rightarrow> fp \<Rightarrow> bool" where
  "flt a b \<longleftrightarrow> \<not> is_nan a \<and> \<not> is_nan b \<and> (cls a < cls b \<or> (cls a = cls b \<and> fval a < fval b))"

definition fle :: "fp \<Rightarrow> fp \<Rightarrow> bool" where
  "fle a b \<longleftrightarrow> \<not> is_nan a \<and> \<not> is_nan b \<and> (cls a < cls b \<or> (cls a = cls b \<and> fval a \<le> fval b))"

definition fge :: "fp \<Rightarrow> fp \<Rightarrow> bool" where
  "fge a b = fle b a"

subsection \<open>The operations the kernels use\<close>

text \<open>
  \<^verbatim>\<open>fmaxf\<close> and \<^verbatim>\<open>fminf\<close> return the other argument when one is a NaN; of two zeros
  \<^verbatim>\<open>fmaxf\<close> prefers the positive and \<^verbatim>\<open>fminf\<close> the negative one.
\<close>

definition fmaxf :: "fp \<Rightarrow> fp \<Rightarrow> fp" where
  "fmaxf a b =
     (if is_nan a then b else if is_nan b then a
      else if flt a b then b else if flt b a then a
      else if sign_bit a then b else a)"

definition fminf :: "fp \<Rightarrow> fp \<Rightarrow> fp" where
  "fminf a b =
     (if is_nan a then b else if is_nan b then a
      else if flt a b then a else if flt b a then b
      else if sign_bit a then a else b)"

text \<open>\<^verbatim>\<open>std::round\<close> on a float: to the nearest integer, halfway cases away from zero.\<close>

definition roundf :: "fp \<Rightarrow> fp" where
  "roundf a =
     (case a of
        Fin r \<Rightarrow>
          (let n = \<lfloor>\<bar>r\<bar> + 1 / 2\<rfloor> in
           if n = 0 then zero_of (r < 0) else Fin (of_int (if r < 0 then - n else n)))
      | _ \<Rightarrow> a)"

text \<open>Conversions: double to float rounds, float to double is exact, and so is bool to float.\<close>

definition to_float :: "fp \<Rightarrow> fp" where
  "to_float a = (case a of Fin r \<Rightarrow> round32 r | _ \<Rightarrow> a)"

definition to_double :: "fp \<Rightarrow> fp" where
  "to_double a = a"

type_synonym int64_t = "64 word"

definition int64_to_float :: "int64_t \<Rightarrow> fp" where
  "int64_to_float k = round32 (of_int (sint k))"

definition bool_to_float :: "bool \<Rightarrow> fp" where
  "bool_to_float b = (if b then Fin 1 else Fin 0)"

abbreviation fmul32 :: "fp \<Rightarrow> fp \<Rightarrow> fp" where
  "fmul32 \<equiv> fmul round32"

abbreviation fadd32 :: "fp \<Rightarrow> fp \<Rightarrow> fp" where
  "fadd32 \<equiv> fadd round32"

abbreviation fsub32 :: "fp \<Rightarrow> fp \<Rightarrow> fp" where
  "fsub32 \<equiv> fsub round32"

abbreviation fmul64 :: "fp \<Rightarrow> fp \<Rightarrow> fp" where
  "fmul64 \<equiv> fmul round64"

abbreviation fdiv64 :: "fp \<Rightarrow> fp \<Rightarrow> fp" where
  "fdiv64 \<equiv> fdiv round64"

abbreviation fmaf :: "fp \<Rightarrow> fp \<Rightarrow> fp \<Rightarrow> fp" where
  "fmaf \<equiv> fma round32"

section \<open>Tensors and the array runtime\<close>

text \<open>
  An \<^verbatim>\<open>at::Tensor\<close> is a handle to an array in memory: the heap is the list of the
  arrays allocated so far and a handle is an index into it, so that two handles denote the
  same array exactly when they are equal.  An array carries its device, its element type,
  its shape and its elements in linear order.
\<close>

datatype ScalarType = Byte | Char | Short | Int | Long | Half | Float | Double

record Tensor =
  is_cuda :: bool
  scalar_type :: ScalarType
  sizes :: "nat list"
  elems :: "fp list"

type_synonym handle = nat
type_synonym heap = "Tensor list"

definition numel :: "Tensor \<Rightarrow> nat" where
  "numel t = prod_list (sizes t)"

text \<open>An array holds as many elements as its shape says, and a handle points into the heap.\<close>

definition wf_tensor :: "Tensor \<Rightarrow> bool" where
  "wf_tensor t \<longleftrightarrow> length (elems t) = numel t"

definition valid :: "heap \<Rightarrow> handle \<Rightarrow> bool" where
  "valid h a \<longleftrightarrow> a < length h \<and> wf_tensor (h ! a)"

text \<open>
  The exceptions of the two functions: the \<^verbatim>\<open>std::invalid_argument\<close> of each parameter
  check, in the order of the source, and the failures of \<^verbatim>\<open>TORCH_CHECK\<close> on the device and
  on the element type.
\<close>

datatype error =
  InvalidRange | InvalidZeroPoint | InvalidDelay | InvalidIter | ShapeMismatch
  | UnsupportedDevice | UnsupportedDtype

text \<open>
  Modelled from the spec: the allocation primitives \<^verbatim>\<open>at::empty_like\<close> and
  \<^verbatim>\<open>at::zeros_like\<close> of the array runtime, which return a new array of the shape, element
  type and device of their argument.  The elements of \<^verbatim>\<open>empty_like\<close> are not initialised;
  the model fills them with \<open>uninitialized\<close>, which the functions below overwrite before
  they read it.
\<close>

definition alloc :: "heap \<Rightarrow> Tensor \<Rightarrow> handle \<times> heap" where
  "alloc h t = (length h, h @ [t])"

definition uninitialized :: fp where
  "uninitialized = NaN"

definition empty_like :: "heap \<Rightarrow> handle \<Rightarrow> handle \<times> heap" where
  "empty_like h a = alloc h ((h ! a)\<lparr>elems := replicate (numel (h ! a)) uninitialized\<rparr>)"

definition zeros_like :: "heap \<Rightarrow> handle \<Rightarrow> handle \<times> heap" where
  "zeros_like h a = alloc h ((h ! a)\<lparr>elems := replicate (numel (h ! a)) (Fin 0)\<rparr>)"

text \<open>
  Modelled from the spec: \<^verbatim>\<open>dst.copy_(src)\<close> overwrites the elements of \<open>dst\<close> with those
  of \<open>src\<close>, here always an array of the same shape and element type.
\<close>

definition copy_inplace :: "heap \<Rightarrow> handle \<Rightarrow> handle \<Rightarrow> heap" where
  "copy_inplace h dst src = h[dst := (h ! dst)\<lparr>elems := elems (h ! src)\<rparr>]"

text \<open>
  Modelled from the spec: the elementwise map \<^verbatim>\<open>at::cuda::CUDA_tensor_apply2<float, float>\<close>
  of \<^verbatim>\<open>CUDAApplyUtils.cuh\<close>.  It applies \<open>op\<close> to the corresponding positions of two
  arrays of equal element count; \<open>op\<close> reads the element of \<open>a\<close> (and may read the one of
  \<open>b\<close>) and its result is written to the element of \<open>b\<close>.  Both arrays must be on the device
  and hold floats.
\<close>

definition CUDA_tensor_apply2 ::
  "heap \<Rightarrow> handle \<Rightarrow> handle \<Rightarrow> (fp \<Rightarrow> fp \<Rightarrow> fp) \<Rightarrow> error + heap" where
  "CUDA_tensor_apply2 h a b op =
     (if \<not> (is_cuda (h ! a) \<and> is_cuda (h ! b)) then Inl UnsupportedDevice
      else if \<not> (scalar_type (h ! a) = Float \<and> scalar_type (h ! b) = Float)
        then Inl UnsupportedDtype
      else if numel (h ! a) \<noteq> numel (h ! b) then Inl ShapeMismatch
      else Inr (h[b := (h ! b)\<lparr>elems := map2 op (elems (h ! a)) (elems (h ! b))\<rparr>]))"

text \<open>
  Modelled from the spec: \<^verbatim>\<open>mask * dY\<close>, the elementwise product of two float arrays of
  the same shape, in a new array.
\<close>

definition mul :: "heap \<Rightarrow> handle \<Rightarrow> handle \<Rightarrow> handle \<times> heap" where
  "mul h a b = alloc h ((h ! a)\<lparr>elems := map2 fmul32 (elems (h ! a)) (elems (h ! b))\<rparr>)"

section \<open>The forward transform\<close>

text \<open>
  The body of the device lambda of \<^verbatim>\<open>fake_quantize_per_tensor_affine_cuda\<close>:
  \<^verbatim>\<open>result_val = (fminf(quant_max, fmaxf(quant_min,
      (std::round(input_val * inv_scale + zero_point)))) - zero_point) * scale\<close>.
  \<open>inv_scale\<close> is a float and \<open>scale\<close> a double; the integers convert to float where they
  meet a float.  The lambda is device code, and the device compiler contracts a float
  product whose only use is a float sum into one fused multiply-add (the default of
  \<^verbatim>\<open>nvcc\<close>, \<^verbatim>\<open>-fmad=true\<close>): \<^verbatim>\<open>input_val * inv_scale + zero_point\<close> is rounded once.  The
  difference is a float; the last product is a double, rounded to float by the assignment.
\<close>

definition forward_op :: "fp \<Rightarrow> int64_t \<Rightarrow> int64_t \<Rightarrow> int64_t \<Rightarrow> fp \<Rightarrow> fp \<Rightarrow> fp \<Rightarrow> fp" where
  "forward_op scale zero_point quant_min quant_max inv_scale input_val result_val =
     to_float
       (fmul64
          (to_double
             (fsub32
                (fminf (int64_to_float quant_max)
                   (fmaxf (int64_to_float quant_min)
                      (roundf (fmaf input_val inv_scale (int64_to_float zero_point)))))
                (int64_to_float zero_point)))
          scale)"

definition fake_quantize_per_tensor_affine_cuda ::
  "heap \<Rightarrow> handle \<Rightarrow> fp \<Rightarrow> int64_t \<Rightarrow> int64_t \<Rightarrow> int64_t \<Rightarrow> int64_t \<Rightarrow> int64_t
     \<Rightarrow> error + handle \<times> heap" where
  "fake_quantize_per_tensor_affine_cuda h self scale zero_point quant_min quant_max
       quant_delay iter =
     (if \<not> is_cuda (h ! self) then Inl UnsupportedDevice
      else if scalar_type (h ! self) \<noteq> Float then Inl UnsupportedDtype
      else if sint quant_min > sint quant_max then Inl InvalidRange
      else if sint zero_point < 0 then Inl InvalidZeroPoint
      else if sint quant_delay < 0 then Inl InvalidDelay
      else if quant_delay \<noteq> 0 \<and> sint iter < 0 then Inl InvalidIter
      else
        let (Y, h1) = empty_like h self in
        if sint quant_delay > 0 \<and> sint iter \<le> sint quant_delay then Inr (Y, copy_inplace h1 Y self)
        else
          let inv_scale = to_float (fdiv64 (to_double (Fin 1)) scale) in
          case CUDA_tensor_apply2 h1 self Y
                 (forward_op scale zero_point quant_min quant_max inv_scale) of
            Inl e \<Rightarrow> Inl e
          | Inr h2 \<Rightarrow> Inr (Y, h2))"

section \<open>The backward transform\<close>

text \<open>
  The body of the device lambda of \<^verbatim>\<open>fake_quantize_per_tensor_affine_backward_cuda\<close>:
  \<^verbatim>\<open>float Xq = std::round(input_val * inv_scale + zero_point);
  result_val = float(Xq >= quant_min && Xq <= quant_max)\<close>, with the same fused
  multiply-add.
\<close>

definition backward_op :: "int64_t \<Rightarrow> int64_t \<Rightarrow> int64_t \<Rightarrow> fp \<Rightarrow> fp \<Rightarrow> fp \<Rightarrow> fp" where
  "backward_op zero_point quant_min quant_max inv_scale input_val result_val =
     (let Xq = roundf (fmaf input_val inv_scale (int64_to_float zero_point)) in
      bool_to_float (fge Xq (int64_to_float quant_min) \<and> fle Xq (int64_to_float quant_max)))"

definition fake_quantize_per_tensor_affine_backward_cuda ::
  "heap \<Rightarrow> handle \<Rightarrow> handle \<Rightarrow> fp \<Rightarrow> int64_t \<Rightarrow> int64_t \<Rightarrow> int64_t \<Rightarrow> int64_t \<Rightarrow> int64_t
     \<Rightarrow> error + handle \<times> heap" where
  "fake_quantize_per_tensor_affine_backward_cuda h dY X scale zero_point quant_min quant_max
       quant_delay iter =
     (if \<not> is_cuda (h ! X) then Inl UnsupportedDevice
      else if scalar_type (h ! X) \<noteq> Float then Inl UnsupportedDtype
      else if sint quant_min > sint quant_max then Inl InvalidRange
      else if sint zero_point < 0 then Inl InvalidZeroPoint
      else if sint quant_delay < 0 then Inl InvalidDelay
      else if numel (h ! X) \<le> 0 then Inr (X, h)
      else if numel (h ! X) \<noteq> numel (h ! dY) then Inl ShapeMismatch
      else if quant_delay \<noteq> 0 \<and> sint iter < 0 then Inl InvalidIter
      else
        let (dX, h1) = zeros_like h dY in
        if sint quant_delay > 0 \<and> sint iter \<le> sint quant_delay then Inr (dX, copy_inplace h1 dX dY)
        else
          let inv_scale = to_float (fdiv64 (to_double (Fin 1)) scale);
              (mask, h2) = empty_like h1 dY in
          case CUDA_tensor_apply2 h2 X mask
                 (backward_op zero_point quant_min quant_max inv_scale) of
            Inl e \<Rightarrow> Inl e
          | Inr h3 \<Rightarrow> Inr (mul h3 mask dY))"

section \<open>The vocabulary of the specification\<close>

text \<open>
  The parameter validator of the specification passes when none of its four conditions
  holds; the source writes the four checks out in both functions.
\<close>

definition validator :: "int64_t \<Rightarrow> int64_t \<Rightarrow> int64_t \<Rightarrow> int64_t \<Rightarrow> int64_t \<Rightarrow> bool" where
  "validator zero_point quant_min quant_max quant_delay iter \<longleftrightarrow>
     sint quant_min \<le> sint quant_max \<and> 0 \<le> sint zero_point \<and> 0 \<le> sint quant_delay
     \<and> (quant_delay = 0 \<or> 0 \<le> sint iter)"

text \<open>The warm-up window, as both functions test it.\<close>

definition warm_up :: "int64_t \<Rightarrow> int64_t \<Rightarrow> bool" where
  "warm_up quant_delay iter \<longleftrightarrow> sint quant_delay > 0 \<and> sint iter \<le> sint quant_delay"

text \<open>\<^verbatim>\<open>float inv_scale = 1.0f / scale\<close>: a double division, rounded to float.\<close>

definition inv_scale_of :: "fp \<Rightarrow> fp" where
  "inv_scale_of scale = to_float (fdiv64 (to_double (Fin 1)) scale)"

text \<open>
  The formulas of the specification, written in their own terms, on integers and
  rationals: they use none of the float operations of the kernels, only the roundings to
  float and to double, at the places where the numeric semantics of the specification
  puts them.

  \<open>spec_round\<close> is \<open>round\<close>, to the nearest integer with halfway cases away from zero, and
  \<open>spec_clamp\<close> is \<open>clamp\<close>, both on exact numbers.
\<close>

definition spec_round :: "rat \<Rightarrow> int" where
  "spec_round r = (if r < 0 then - \<lfloor>- r + 1 / 2\<rfloor> else \<lfloor>r + 1 / 2\<rfloor>)"

definition spec_clamp :: "int \<Rightarrow> int \<Rightarrow> int \<Rightarrow> int" where
  "spec_clamp v lo hi = min hi (max lo v)"

text \<open>
  \<open>1 / scale\<close>, computed once: the quotient rounded to double and then to float; an
  infinity for a zero scale and a zero for an infinite one.
\<close>

definition spec_inv_scale :: "fp \<Rightarrow> fp" where
  "spec_inv_scale scale =
     (case scale of
        NaN \<Rightarrow> NaN | PInf \<Rightarrow> Fin 0 | NInf \<Rightarrow> NZero | NZero \<Rightarrow> NInf
      | Fin s \<Rightarrow> (if s = 0 then PInf else to_float (round64 (1 / s))))"

text \<open>
  \<open>x * (1 / scale) + zero_point\<close> in 32-bit precision: the exact value, rounded once to
  float.  It is a NaN when \<open>x\<close> or \<open>1 / scale\<close> is, or when one is infinite and the other
  zero, and otherwise infinite when one of them is.
\<close>

definition spec_affine :: "fp \<Rightarrow> fp \<Rightarrow> int \<Rightarrow> fp" where
  "spec_affine x inv_scale zero_point =
     (if is_nan x \<or> is_nan inv_scale \<or> (is_inf x \<and> is_zero inv_scale)
         \<or> (is_zero x \<and> is_inf inv_scale) then NaN
      else if is_inf x \<or> is_inf inv_scale then inf_of (sign_bit x \<noteq> sign_bit inv_scale)
      else round32 (fval x * fval inv_scale + of_int zero_point))"

text \<open>
  The level \<open>q = clamp(round(t), quant_min, quant_max)\<close>, an integer.  The formula of the
  specification does not say what \<open>q\<close> is when \<open>t\<close> is not a number: the kernel yields
  \<open>quant_min\<close> for a NaN and for \<open>-\<infinity>\<close>, and \<open>quant_max\<close> for \<open>+\<infinity>\<close>.
\<close>

definition spec_quantize :: "fp \<Rightarrow> int \<Rightarrow> int \<Rightarrow> int" where
  "spec_quantize t quant_min quant_max =
     (case t of
        NaN \<Rightarrow> quant_min | PInf \<Rightarrow> quant_max | NInf \<Rightarrow> quant_min
      | NZero \<Rightarrow> spec_clamp 0 quant_min quant_max
      | Fin r \<Rightarrow> spec_clamp (spec_round r) quant_min quant_max)"

text \<open>
  \<open>d * scale\<close> for the integer \<open>d = q - zero_point\<close>: the exact product, rounded to double
  and then to float.
\<close>

definition spec_dequantize :: "int \<Rightarrow> fp \<Rightarrow> fp" where
  "spec_dequantize d scale =
     (case scale of
        NaN \<Rightarrow> NaN
      | PInf \<Rightarrow> (if d = 0 then NaN else inf_of (d < 0))
      | NInf \<Rightarrow> (if d = 0 then NaN else inf_of (0 < d))
      | NZero \<Rightarrow> Fin 0
      | Fin s \<Rightarrow> (if d = 0 \<or> s = 0 then Fin 0 else to_float (round64 (of_int d * s))))"

text \<open>
  The value of the forward transform at an element \<open>x\<close>:
  \<open>y = (clamp(round(x * (1/scale) + zero_point), quant_min, quant_max) - zero_point) * scale\<close>.
\<close>

definition spec_forward :: "fp \<Rightarrow> int \<Rightarrow> int \<Rightarrow> int \<Rightarrow> fp \<Rightarrow> fp" where
  "spec_forward scale zero_point quant_min quant_max x =
     spec_dequantize
       (spec_quantize (spec_affine x (spec_inv_scale scale) zero_point) quant_min quant_max
          - zero_point)
       scale"

text \<open>
  The indicator of the backward transform,
  \<open>quant_min \<le> round(x * (1/scale) + zero_point) \<le> quant_max\<close>, on integers; it is false
  when the value rounded is not a number.  The gradient is \<open>gradOutput * mask\<close>: the
  gradient where the indicator holds, and a zero elsewhere, unless the gradient is
  infinite or a NaN, where the product with zero is a NaN.
\<close>

definition spec_in_range :: "fp \<Rightarrow> int \<Rightarrow> int \<Rightarrow> bool" where
  "spec_in_range t quant_min quant_max =
     (case t of
        Fin r \<Rightarrow> quant_min \<le> spec_round r \<and> spec_round r \<le> quant_max
      | NZero \<Rightarrow> quant_min \<le> 0 \<and> 0 \<le> quant_max
      | _ \<Rightarrow> False)"

definition spec_backward :: "fp \<Rightarrow> int \<Rightarrow> int \<Rightarrow> int \<Rightarrow> fp \<Rightarrow> fp \<Rightarrow> fp" where
  "spec_backward scale zero_point quant_min quant_max x g =
     (if spec_in_range (spec_affine x (spec_inv_scale scale) zero_point) quant_min quant_max
      then g
      else if is_nan g \<or> is_inf g then NaN else Fin 0)"

text \<open>
  Two values are the same number when they are equal or both are zeros: the two zeros
  differ in sign only and compare equal.  A value is a float when the conversion to float
  leaves it as it is.
\<close>

definition same_value :: "fp \<Rightarrow> fp \<Rightarrow> bool" where
  "same_value a b \<longleftrightarrow> a = b \<or> (is_zero a \<and> is_zero b)"

definition is_float :: "fp \<Rightarrow> bool" where
  "is_float a \<longleftrightarrow> to_float a = a"

text \<open>The elements of the array a call returns, if it returns one.\<close>

definition result_elems :: "error + handle \<times> heap \<Rightarrow> fp list option" where
  "result_elems r = (case r of Inl e \<Rightarrow> None | Inr (a, h) \<Rightarrow> Some (elems (h ! a)))"

section \<open>Properties of rounding\<close>

subsection \<open>The exponent\<close>

text \<open>
  \<open>bits\<close> counts binary digits, so \<open>ilog2 a\<close> is the exponent \<open>e\<close> with
  \<open>2 ^ e \<le> a < 2 ^ (e + 1)\<close>, and it is monotone.
\<close>

lemma bits_upper: "n < 2 ^ bits n"
proof (induction n rule: bits.induct)
  case (1 n)
  show ?case
  proof (cases "n \<le> 0")
    case True
    then show ?thesis by (simp add: bits.simps)
  next
    case False
    with 1 have "n div 2 < 2 ^ bits (n div 2)" by simp
    then have "n < 2 * 2 ^ bits (n div 2)" by linarith
    with False show ?thesis by (subst bits.simps) simp
  qed
qed

lemma bits_pos: "0 < n \<Longrightarrow> 0 < bits n"
  by (subst bits.simps) simp

lemma bits_lower: "0 < n \<Longrightarrow> 2 ^ (bits n - 1) \<le> n"
proof (induction n rule: bits.induct)
  case (1 n)
  show ?case
  proof (cases "n div 2 \<le> 0")
    case True
    with 1(2) have "n = 1" by linarith
    then show ?thesis by (simp add: bits.simps)
  next
    case False
    then have pos: "0 < n div 2" by simp
    with 1 have ih: "2 ^ (bits (n div 2) - 1) \<le> n div 2" by simp
    have "2 ^ bits (n div 2) = (2::int) * 2 ^ (bits (n div 2) - 1)"
      using bits_pos [OF pos] by (cases "bits (n div 2)") simp_all
    with ih have "2 ^ bits (n div 2) \<le> n" by linarith
    with 1(2) show ?thesis by (subst bits.simps) simp
  qed
qed

lemma two_powi_pos [simp]: "0 < (2::rat) powi e"
  by (simp add: zero_less_power_int)

lemma ilog2_lower: 
  assumes "0 < a" shows "2 powi ilog2 a \<le> a"
proof (cases "1 \<le> a")
  case True
  let ?n = "\<lfloor>a\<rfloor>"
  have n: "0 < ?n" using True by simp
  have "ilog2 a = int (bits ?n - 1)"
    using True bits_pos [OF n] by (simp add: ilog2_def)
  then have "(2::rat) powi ilog2 a = of_int (2 ^ (bits ?n - 1))" by simp
  also have "\<dots> \<le> of_int ?n" using bits_lower [OF n] by (simp only: of_int_le_iff)
  also have "\<dots> \<le> a" by simp
  finally show ?thesis .
next
  case False
  let ?n = "\<lceil>1 / a\<rceil> - 1"
  have "1 / a \<le> of_int (?n + 1)" by simp
  also have "\<dots> \<le> of_int (2 ^ bits ?n)"
    using bits_upper [of ?n] by (simp only: of_int_le_iff)
  finally have "1 / a \<le> 2 ^ bits ?n" by simp
  then have "1 / 2 ^ bits ?n \<le> a" using assms
    by (simp add: field_simps)
  moreover have "(2::rat) powi ilog2 a = 1 / 2 ^ bits ?n"
    using False by (simp add: ilog2_def power_int_minus_divide)
  ultimately show ?thesis by simp
qed

lemma ilog2_upper: 
  assumes "0 < a" shows "a < 2 powi (ilog2 a + 1)"
proof (cases "1 \<le> a")
  case True
  let ?n = "\<lfloor>a\<rfloor>"
  have e: "ilog2 a + 1 = int (bits ?n)"
    using True by (simp add: ilog2_def)
  have "a < of_int (?n + 1)" by linarith
  also have "\<dots> \<le> of_int (2 ^ bits ?n)"
    using bits_upper [of ?n] by (simp only: of_int_le_iff)
  also have "\<dots> = 2 powi (ilog2 a + 1)" by (simp add: e)
  finally show ?thesis .
next
  case False
  let ?n = "\<lceil>1 / a\<rceil> - 1"
  have "1 < 1 / a" using False assms by simp
  then have c: "2 \<le> \<lceil>1 / a\<rceil>" by (simp add: less_ceiling_iff)
  then have n: "0 < ?n" by simp
  have e: "ilog2 a + 1 = - int (bits ?n - 1)"
    using False bits_pos [OF n] by (simp add: ilog2_def)
  have "of_int (2 ^ (bits ?n - 1)) \<le> (of_int ?n :: rat)"
    using bits_lower [OF n] by (simp only: of_int_le_iff)
  also have "\<dots> < 1 / a" by linarith
  finally have "2 ^ (bits ?n - 1) < 1 / a" by simp
  then have "a < 1 / 2 ^ (bits ?n - 1)" using assms by (simp add: field_simps)
  then show ?thesis by (simp add: e power_int_minus_divide)
qed

lemma ilog2_unique:
  assumes "2 powi e \<le> a" "a < 2 powi (e + 1)"
  shows "ilog2 a = e"
proof -
  have pos: "0 < a" using assms(1) two_powi_pos [of e] by linarith
  have "\<not> ilog2 a < e"
  proof
    assume "ilog2 a < e"
    then have "2 powi (ilog2 a + 1) \<le> (2::rat) powi e"
      by (intro power_int_increasing) simp_all
    with ilog2_upper [OF pos] assms(1) show False by linarith
  qed
  moreover have "\<not> e < ilog2 a"
  proof
    assume "e < ilog2 a"
    then have "2 powi (e + 1) \<le> (2::rat) powi ilog2 a"
      by (intro power_int_increasing) simp_all
    with ilog2_lower [OF pos] assms(2) show False by linarith
  qed
  ultimately show ?thesis by linarith
qed

lemma ilog2_mono:
  assumes "0 < a" "a \<le> b"
  shows "ilog2 a \<le> ilog2 b"
proof (rule ccontr)
  assume "\<not> ilog2 a \<le> ilog2 b"
  then have "2 powi (ilog2 b + 1) \<le> (2::rat) powi ilog2 a"
    by (intro power_int_increasing) simp_all
  moreover have "0 < b" using assms by linarith
  ultimately show False
    using ilog2_lower [OF assms(1)] ilog2_upper [of b] assms(2) by linarith
qed

subsection \<open>Rounding to a format\<close>

text \<open>
  Rounding leaves the representable values \<open>n * 2 ^ j\<close> (with \<open>|n| < 2 ^ p\<close>) as they are,
  it is monotone and idempotent, and its result is again such a value.
\<close>

lemma rne_of_int [simp]: "rne (of_int n) = n"
  by (simp add: rne_def)

lemma rne_lower: "\<lfloor>x\<rfloor> \<le> rne x"
  by (simp add: rne_def Let_def)

lemma rne_upper: "rne x \<le> \<lfloor>x\<rfloor> + 1"
  by (simp add: rne_def Let_def)

lemma rne_mono:
  assumes "x \<le> y" shows "rne x \<le> rne y"
proof (cases "\<lfloor>x\<rfloor> = \<lfloor>y\<rfloor>")
  case True
  with assms have "x - of_int \<lfloor>x\<rfloor> \<le> y - of_int \<lfloor>y\<rfloor>" by simp
  with True show ?thesis by (auto simp: rne_def Let_def)
next
  case False
  with assms have "\<lfloor>x\<rfloor> + 1 \<le> \<lfloor>y\<rfloor>" using floor_mono [OF assms] by linarith
  with rne_upper [of x] rne_lower [of y] show ?thesis by linarith
qed

lemma rne_err: "\<bar>of_int (rne x) - x\<bar> \<le> 1 / 2"
proof -
  have "of_int \<lfloor>x\<rfloor> \<le> x" "x < of_int \<lfloor>x\<rfloor> + 1" by linarith+
  then show ?thesis by (auto simp: rne_def Let_def abs_le_iff)
qed

lemma round_mag_0 [simp]: "round_mag p emin 0 = 0"
  by (simp add: round_mag_def rne_def)

lemma round_mag_nonneg:
  assumes "0 \<le> a" shows "0 \<le> round_mag p emin a"
proof -
  let ?u = "(2::rat) powi (max (ilog2 a) emin - int p + 1)"
  have "0 \<le> a / ?u" using assms by simp
  then have "0 \<le> \<lfloor>a / ?u\<rfloor>" by simp
  with rne_lower [of "a / ?u"] have "0 \<le> rne (a / ?u)" by linarith
  then show ?thesis by (simp add: round_mag_def Let_def)
qed

lemma two_powi_less_imp:
  assumes "(2::rat) powi x < 2 powi y" shows "x < y"
proof (rule ccontr)
  assume "\<not> x < y"
  then have "(2::rat) powi y \<le> 2 powi x" by (intro power_int_increasing) simp_all
  with assms show False by linarith
qed

lemma two_powi_split: "(2::rat) powi (x + y) = 2 powi x * 2 powi y"
  by (simp add: power_int_add)

lemma two_powi_diff_nat:
  assumes "k \<le> j" shows "(2::rat) powi j = 2 ^ nat (j - k) * 2 powi k"
proof -
  have "(2::rat) powi j = 2 powi ((j - k) + k)" by simp
  also have "\<dots> = 2 powi (j - k) * 2 powi k" by (rule two_powi_split)
  also have "(2::rat) powi (j - k) = 2 ^ nat (j - k)"
    using assms by (simp add: power_int_nonneg_exp)
  finally show ?thesis .
qed

lemma round_mag_exact:
  assumes "0 < n" "n < 2 ^ p" "emin - int p + 1 \<le> j"
  shows "round_mag p emin (of_int n * 2 powi j) = of_int n * 2 powi j"
proof -
  define a :: rat where "a = of_int n * 2 powi j"
  define k where "k = max (ilog2 a) emin - int p + 1"
  have pos: "0 < a" using assms(1) by (simp add: a_def)
  have "of_int n < (2::rat) ^ p"
    using assms(2) by (metis of_int_less_iff of_int_numeral of_int_power)
  then have "a < 2 ^ p * 2 powi j"
    by (simp add: a_def)
  also have "\<dots> = 2 powi (int p + j)" by (simp add: two_powi_split)
  finally have "2 powi ilog2 a < (2::rat) powi (int p + j)"
    using ilog2_lower [OF pos] by linarith
  then have "ilog2 a < int p + j" by (rule two_powi_less_imp)
  with assms(3) have k: "k \<le> j" by (simp add: k_def)
  have aj: "a = of_int (n * 2 ^ nat (j - k)) * 2 powi k"
    unfolding a_def by (subst two_powi_diff_nat [OF k]) simp
  then have q: "a / 2 powi k = of_int (n * 2 ^ nat (j - k))" by simp
  have "round_mag p emin a = of_int (rne (a / 2 powi k)) * 2 powi k"
    by (simp add: round_mag_def Let_def k_def)
  also have "\<dots> = of_int (n * 2 ^ nat (j - k)) * 2 powi k"
    by (simp only: q rne_of_int)
  also have "\<dots> = a" by (rule aj [symmetric])
  finally show ?thesis by (simp add: a_def)
qed

lemma two_pow_powi: "(2::rat) ^ p * 2 powi k = 2 powi (int p + k)"
  by (simp add: two_powi_split)

lemma of_int_two_pow_powi: "rat_of_int (2 ^ p) * 2 powi k = 2 powi (int p + k)"
  by (simp add: two_powi_split)

lemma round_mag_form:
  assumes "0 < a"
  shows "\<exists>n. round_mag p emin a = of_int n * 2 powi (max (ilog2 a) emin - int p + 1)
           \<and> 0 \<le> n \<and> n \<le> 2 ^ p"
proof -
  define e where "e = max (ilog2 a) emin"
  define u :: rat where "u = 2 powi (e - int p + 1)"
  have u: "0 < u" by (simp add: u_def)
  have "a < 2 powi (ilog2 a + 1)" by (rule ilog2_upper [OF assms])
  also have "\<dots> \<le> 2 powi (e + 1)"
    by (intro power_int_increasing) (simp_all add: e_def)
  also have "\<dots> = 2 ^ p * u"
    unfolding u_def by (simp add: two_pow_powi)
  finally have "a / u < 2 ^ p" using u by (simp add: field_simps)
  then have "a / u \<le> of_int (2 ^ p)" by simp
  then have "rne (a / u) \<le> rne (of_int (2 ^ p))" by (rule rne_mono)
  then have hi: "rne (a / u) \<le> 2 ^ p" by (simp only: rne_of_int)
  have "0 \<le> a / u" using assms u by simp
  then have "0 \<le> \<lfloor>a / u\<rfloor>" by simp
  with rne_lower [of "a / u"] have lo: "0 \<le> rne (a / u)" by linarith
  have "round_mag p emin a = of_int (rne (a / u)) * u"
    by (simp add: round_mag_def Let_def u_def e_def)
  with lo hi show ?thesis unfolding u_def e_def by blast
qed

lemma round_mag_upper:
  assumes "0 < a"
  shows "round_mag p emin a \<le> 2 powi (max (ilog2 a) emin + 1)"
proof -
  define e where "e = max (ilog2 a) emin"
  from round_mag_form [OF assms, of p emin] obtain n
    where n: "round_mag p emin a = of_int n * 2 powi (e - int p + 1)" "n \<le> 2 ^ p"
    unfolding e_def by blast
  have "of_int n \<le> (2::rat) ^ p"
    using n(2) by (metis of_int_le_iff of_int_numeral of_int_power)
  then have "of_int n * 2 powi (e - int p + 1) \<le> 2 ^ p * (2::rat) powi (e - int p + 1)"
    by (simp add: mult_right_mono)
  also have "\<dots> = 2 powi (e + 1)" by (simp add: two_pow_powi)
  finally show ?thesis using n(1) by (simp add: e_def)
qed

lemma round_mag_lower:
  assumes "0 < a" "emin \<le> ilog2 a" "0 < p"
  shows "2 powi ilog2 a \<le> round_mag p emin a"
proof -
  define e where "e = ilog2 a"
  define u :: rat where "u = 2 powi (e - int p + 1)"
  have u: "0 < u" by (simp add: u_def)
  have m: "max (ilog2 a) emin = e" using assms(2) by (simp add: e_def)
  have p1: "int (p - 1) = int p - 1" using assms(3) by simp
  have eq: "(2::rat) powi e = of_int (2 ^ (p - 1)) * u"
    unfolding u_def by (simp only: of_int_two_pow_powi p1) simp
  have "2 powi e \<le> a" unfolding e_def by (rule ilog2_lower [OF assms(1)])
  then have "of_int (2 ^ (p - 1)) \<le> a / u" using u by (simp add: eq field_simps)
  then have "rne (of_int (2 ^ (p - 1))) \<le> rne (a / u)" by (rule rne_mono)
  then have "2 ^ (p - 1) \<le> rne (a / u)" by (simp only: rne_of_int)
  then have "(of_int (2 ^ (p - 1)) :: rat) \<le> of_int (rne (a / u))" by (simp only: of_int_le_iff)
  then have "of_int (2 ^ (p - 1)) * u \<le> of_int (rne (a / u)) * u"
    using u by (simp add: mult_right_mono)
  moreover have "round_mag p emin a = of_int (rne (a / u)) * u"
    by (simp add: round_mag_def Let_def u_def m)
  ultimately show ?thesis using eq by (simp add: e_def)
qed

lemma round_mag_mono:
  assumes "0 < a" "a \<le> b" "0 < p"
  shows "round_mag p emin a \<le> round_mag p emin b"
proof -
  define ea where "ea = max (ilog2 a) emin"
  define eb where "eb = max (ilog2 b) emin"
  have b: "0 < b" using assms by linarith
  have le: "ea \<le> eb" using ilog2_mono [OF assms(1,2)] by (simp add: ea_def eb_def)
  show ?thesis
  proof (cases "ea = eb")
    case True
    define u :: rat where "u = 2 powi (ea - int p + 1)"
    have u: "0 < u" by (simp add: u_def)
    have "a / u \<le> b / u" using assms(2) u by (simp add: divide_right_mono)
    then have "rne (a / u) \<le> rne (b / u)" by (rule rne_mono)
    then have "(of_int (rne (a / u)) :: rat) \<le> of_int (rne (b / u))" by (simp only: of_int_le_iff)
    then have "of_int (rne (a / u)) * u \<le> of_int (rne (b / u)) * u"
      using u by (simp add: mult_right_mono)
    moreover have "round_mag p emin a = of_int (rne (a / u)) * u"
      by (simp add: round_mag_def Let_def u_def ea_def)
    moreover have "round_mag p emin b = of_int (rne (b / u)) * u"
      using True by (simp add: round_mag_def Let_def u_def eb_def)
    ultimately show ?thesis by simp
  next
    case False
    with le have lt: "ea < eb" by simp
    then have eb: "eb = ilog2 b" "emin \<le> ilog2 b"
      by (auto simp: ea_def eb_def max_def split: if_splits)
    have "round_mag p emin a \<le> 2 powi (ea + 1)"
      unfolding ea_def by (rule round_mag_upper [OF assms(1)])
    also have "\<dots> \<le> 2 powi eb" using lt by (intro power_int_increasing) simp_all
    also have "\<dots> \<le> round_mag p emin b"
      unfolding eb(1) by (rule round_mag_lower [OF b eb(2) assms(3)])
    finally show ?thesis .
  qed
qed

lemma round_mag_idem:
  assumes "0 < p" "0 \<le> a"
  shows "round_mag p emin (round_mag p emin a) = round_mag p emin a"
proof (cases "0 < a")
  case True
  define k where "k = max (ilog2 a) emin - int p + 1"
  from round_mag_form [OF True, of p emin] obtain n
    where n: "round_mag p emin a = of_int n * 2 powi k" "0 \<le> n" "n \<le> 2 ^ p"
    unfolding k_def by blast
  have k: "emin - int p + 1 \<le> k" by (simp add: k_def)
  consider "n = 0" | "0 < n" "n < 2 ^ p" | "n = 2 ^ p" using n(2,3) by linarith
  then show ?thesis
  proof cases
    case 1
    then show ?thesis using n(1) by simp
  next
    case 2
    then show ?thesis using n(1) round_mag_exact [OF 2 k] by simp
  next
    case 3
    have p1: "int (p - 1) = int p - 1" using assms by simp
    have "of_int n * (2::rat) powi k = of_int (2 ^ (p - 1)) * 2 powi (k + 1)"
      unfolding 3 by (simp only: of_int_two_pow_powi p1) simp
    moreover have "round_mag p emin (of_int (2 ^ (p - 1)) * 2 powi (k + 1))
        = of_int (2 ^ (p - 1)) * 2 powi (k + 1)"
      using assms(1) k by (intro round_mag_exact) simp_all
    ultimately show ?thesis using n(1) by simp
  qed
next
  case False
  with assms(2) have "a = 0" by simp
  then show ?thesis by simp
qed

lemma fround_Fin_eq:
  assumes "fround p emin emax v = Fin r"
  shows "r = (if v < 0 then - round_mag p emin \<bar>v\<bar> else round_mag p emin \<bar>v\<bar>)"
  using assms
  by (auto simp: fround_def Let_def zero_of_def inf_of_def split: if_splits)

lemma fround_Fin_exp:
  assumes "fround p emin emax v = Fin r" "r \<noteq> 0"
  shows "ilog2 \<bar>r\<bar> \<le> emax"
  using assms round_mag_nonneg [of "\<bar>v\<bar>" p emin]
  by (auto simp: fround_def Let_def zero_of_def inf_of_def split: if_splits)

lemma fround_FinI:
  assumes "round_mag p emin \<bar>v\<bar> = \<bar>v\<bar>" "v = 0 \<or> ilog2 \<bar>v\<bar> \<le> emax"
  shows "fround p emin emax v = Fin v"
  using assms by (auto simp: fround_def Let_def zero_of_def inf_of_def)

lemma fround_idem:
  assumes "0 < p" "fround p emin emax v = Fin r"
  shows "fround p emin emax r = Fin r"
proof (rule fround_FinI)
  have "\<bar>r\<bar> = round_mag p emin \<bar>v\<bar>"
    using fround_Fin_eq [OF assms(2)] round_mag_nonneg [of "\<bar>v\<bar>" p emin] by auto
  then show "round_mag p emin \<bar>r\<bar> = \<bar>r\<bar>"
    using round_mag_idem [OF assms(1), of "\<bar>v\<bar>" emin] by simp
  show "r = 0 \<or> ilog2 \<bar>r\<bar> \<le> emax"
    using fround_Fin_exp [OF assms(2)] by blast
qed

lemma ilog2_int_less:
  assumes "0 < n" "n < 2 ^ q"
  shows "ilog2 (of_int n) < int q"
proof -
  have a: "of_int n < (2::rat) ^ q"
    using assms(2) by (metis of_int_less_iff of_int_numeral of_int_power)
  have b: "2 powi ilog2 (of_int n) \<le> rat_of_int n"
    using assms(1) by (intro ilog2_lower) simp
  from a b have "(2::rat) powi ilog2 (rat_of_int n) < 2 ^ q" by linarith
  then have "2 powi ilog2 (rat_of_int n) < (2::rat) powi int q" by simp
  then show ?thesis by (rule two_powi_less_imp)
qed

lemma fround_exact_int:
  assumes "\<bar>n\<bar> < 2 ^ p" "emin - int p + 1 \<le> 0" "int p \<le> emax + 1"
  shows "fround p emin emax (of_int n) = Fin (of_int n)"
proof (rule fround_FinI)
  show "round_mag p emin \<bar>rat_of_int n\<bar> = \<bar>of_int n\<bar>"
  proof (cases "n = 0")
    case True
    then show ?thesis by simp
  next
    case False
    then have "0 < \<bar>n\<bar>" by simp
    from round_mag_exact [OF this assms(1,2)] show ?thesis by simp
  qed
  show "rat_of_int n = 0 \<or> ilog2 \<bar>rat_of_int n\<bar> \<le> emax"
  proof (cases "n = 0")
    case True
    then show ?thesis by simp
  next
    case False
    then have "0 < \<bar>n\<bar>" by simp
    from ilog2_int_less [OF this assms(1)] assms(3) show ?thesis by simp
  qed
qed

subsection \<open>Conversions and the operations of the kernels\<close>

text \<open>
  An integer of magnitude at most \<open>2 ^ 24\<close> is a float.  On such integers the operations
  of the kernels compute what the formulas of the specification say: the fused
  multiply-add is \<open>spec_affine\<close>, \<^verbatim>\<open>std::round\<close> is \<open>spec_round\<close>, \<^verbatim>\<open>fminf\<close> of \<^verbatim>\<open>fmaxf\<close> is
  \<open>spec_clamp\<close>, the float difference is the integer difference, and the double product
  rounded to float is \<open>spec_dequantize\<close>.
\<close>

lemma round_mag_two_powi:
  assumes "0 < p" "emin - int p + 1 \<le> j"
  shows "round_mag p emin (2 powi j) = 2 powi j"
proof -
  have "(1::int) < 2 ^ p" using assms(1) by (simp add: one_less_power)
  from round_mag_exact [OF _ this assms(2)] show ?thesis by simp
qed

lemma ilog2_two_powi [simp]: "ilog2 (2 powi j) = j"
  by (rule ilog2_unique) (simp_all add: power_int_strict_increasing)

lemma round32_0 [simp]: "round32 0 = Fin 0"
  by (simp add: round32_def fround_def zero_of_def)

lemma round32_idem: "round32 v = Fin r \<Longrightarrow> round32 r = Fin r"
  unfolding round32_def by (rule fround_idem) simp

lemma to_float_round32 [simp]: "to_float (round32 v) = round32 v"
  by (cases "round32 v") (simp_all add: to_float_def round32_idem)

lemma to_float_zero_of [simp]: "to_float (zero_of s) = zero_of s"
  by (simp add: to_float_def zero_of_def)

lemma to_float_special [simp]:
  "to_float NaN = NaN" "to_float PInf = PInf" "to_float NInf = NInf" "to_float NZero = NZero"
  by (simp_all add: to_float_def)

lemma floor_half [simp]: "\<lfloor>1 / 2 :: rat\<rfloor> = 0"
  by (rule floor_unique) simp_all

lemma floor_int_half [simp]: "\<lfloor>rat_of_int z + 1 / 2\<rfloor> = z"
  by (rule floor_unique) simp_all

lemma round32_exact_int:
  assumes "\<bar>n\<bar> < 2 ^ 24"
  shows "round32 (of_int n) = Fin (of_int n)"
  unfolding round32_def using assms by (intro fround_exact_int) simp_all

lemma same_value_refl [simp]: "same_value a a"
  by (simp add: same_value_def)

lemma fmaxf_Fin [simp]: "fmaxf (Fin a) (Fin b) = Fin (max a b)"
  by (auto simp: fmaxf_def flt_def max_def)

lemma fminf_Fin [simp]: "fminf (Fin a) (Fin b) = Fin (min a b)"
  by (auto simp: fminf_def flt_def min_def)

lemma fmaxf_Fin_special [simp]:
  "fmaxf (Fin a) NaN = Fin a" "fmaxf (Fin a) PInf = PInf" "fmaxf (Fin a) NInf = Fin a"
  "fmaxf (Fin a) NZero = (if a < 0 then NZero else Fin a)"
  by (auto simp: fmaxf_def flt_def)

lemma fminf_Fin_special [simp]:
  "fminf (Fin b) PInf = Fin b" "fminf (Fin b) NZero = (if b < 0 then Fin b else NZero)"
  by (auto simp: fminf_def flt_def)

lemma is_zero_zero_of [simp]: "is_zero (zero_of s)"
  by (simp add: zero_of_def)

lemma is_zero_not_special: "is_zero a \<Longrightarrow> \<not> is_nan a \<and> \<not> is_inf a \<and> fval a = 0"
  by (cases a) simp_all

lemma fadd_zero:
  assumes "is_zero a"
  shows "fadd rd a y =
    (if is_nan y then NaN else if is_inf y then y
     else if fval y = 0 then zero_of (sign_bit a \<and> sign_bit y) else rd (fval y))"
  using is_zero_not_special [OF assms] by (simp add: fadd_def)

lemma fmul_zero:
  assumes "is_zero a"
  shows "fmul rd a s =
    (if is_nan s \<or> is_inf s then NaN else zero_of (sign_bit a \<noteq> sign_bit s))"
  using is_zero_not_special [OF assms] assms by (simp add: fmul_def)

lemma to_float_zero:
  assumes "is_zero a"
  shows "is_zero (to_float a)"
  using assms by (cases a) (simp_all add: to_float_def)

lemma fsub_same_value:
  assumes "same_value a b"
  shows "same_value (fsub rd a z) (fsub rd b z)"
proof (cases "a = b")
  case False
  with assms have "is_zero a" "is_zero b" by (simp_all add: same_value_def)
  then show ?thesis by (simp add: fsub_def fadd_zero same_value_def)
qed simp

lemma fmul_same_value:
  assumes "same_value a b"
  shows "same_value (fmul rd a s) (fmul rd b s)"
proof (cases "a = b")
  case False
  with assms have "is_zero a" "is_zero b" by (simp_all add: same_value_def)
  then show ?thesis by (simp add: fmul_zero same_value_def)
qed simp

lemma to_float_same_value:
  assumes "same_value a b"
  shows "same_value (to_float a) (to_float b)"
proof (cases "a = b")
  case False
  with assms have "is_zero a" "is_zero b" by (simp_all add: same_value_def)
  then show ?thesis by (simp add: to_float_zero same_value_def)
qed simp

lemma is_zero_cases: "is_zero a \<longleftrightarrow> a = NZero \<or> a = Fin 0"
  by (cases a) simp_all

lemma same_value_sym: "same_value a b \<Longrightarrow> same_value b a"
  by (auto simp: same_value_def)

lemma same_value_trans: "same_value a b \<Longrightarrow> same_value b c \<Longrightarrow> same_value a c"
  by (auto simp: same_value_def)

lemma fround_exact_scaled:
  assumes "\<bar>n\<bar> < 2 ^ p" "emin - int p + 1 \<le> j" "int p + j \<le> emax + 1"
  shows "fround p emin emax (of_int n * 2 powi j) = Fin (of_int n * 2 powi j)"
proof (cases "n = 0")
  case True
  then show ?thesis by (simp add: fround_def zero_of_def)
next
  case False
  then have n: "0 < \<bar>n\<bar>" by simp
  have a: "\<bar>rat_of_int n * 2 powi j\<bar> = of_int \<bar>n\<bar> * 2 powi j"
    by (simp add: abs_mult)
  have e: "round_mag p emin (of_int \<bar>n\<bar> * 2 powi j) = of_int \<bar>n\<bar> * 2 powi j"
    by (rule round_mag_exact [OF n assms(1,2)])
  have "of_int \<bar>n\<bar> < (2::rat) ^ p"
    using assms(1) by (metis of_int_less_iff of_int_numeral of_int_power)
  then have "of_int \<bar>n\<bar> * 2 powi j < (2::rat) ^ p * 2 powi j"
    by (intro mult_strict_right_mono) simp_all
  also have "\<dots> = 2 powi (int p + j)" by (rule two_pow_powi)
  finally have "2 powi ilog2 (of_int \<bar>n\<bar> * 2 powi j) < (2::rat) powi (int p + j)"
    using ilog2_lower [of "of_int \<bar>n\<bar> * 2 powi j"] n by simp
  then have "ilog2 (of_int \<bar>n\<bar> * 2 powi j) < int p + j" by (rule two_powi_less_imp)
  with assms(3) have "ilog2 (of_int \<bar>n\<bar> * 2 powi j) \<le> emax" by simp
  with e show ?thesis by (intro fround_FinI) (simp_all only: a, simp)
qed

lemma round32_exact_int_le:
  assumes "\<bar>n\<bar> \<le> 2 ^ 24"
  shows "round32 (of_int n) = Fin (of_int n)"
proof (cases "\<bar>n\<bar> < 2 ^ 24")
  case True
  then show ?thesis by (rule round32_exact_int)
next
  case False
  with assms have "n = 2 ^ 24 \<or> n = - (2 ^ 24)" by auto
  moreover have "round32 (of_int 1 * 2 powi 24) = Fin (of_int 1 * 2 powi 24)"
    unfolding round32_def by (rule fround_exact_scaled) simp_all
  moreover have "round32 (of_int (- 1) * 2 powi 24) = Fin (of_int (- 1) * 2 powi 24)"
    unfolding round32_def by (rule fround_exact_scaled) simp_all
  ultimately show ?thesis by auto
qed

lemma int64_to_float_exact:
  assumes "\<bar>sint k\<bar> \<le> 2 ^ 24"
  shows "int64_to_float k = Fin (of_int (sint k))"
  unfolding int64_to_float_def by (rule round32_exact_int_le [OF assms])

lemma to_float_Fin_0 [simp]: "to_float (Fin 0) = Fin 0"
  by (simp add: to_float_def)

lemma inv_scale_of_spec: "inv_scale_of scale = spec_inv_scale scale"
  by (cases scale)
    (simp_all add: inv_scale_of_def spec_inv_scale_def fdiv_def to_double_def inf_of_def
      zero_of_def)

lemma fmaf_spec:
  assumes "0 \<le> z"
  shows "fmaf x i (Fin (of_int z)) = spec_affine x i z"
  using assms by (simp add: fma_def spec_affine_def zero_of_def)

lemma roundf_spec:
  shows "\<not> is_nan (roundf (Fin r))" and "\<not> is_inf (roundf (Fin r))"
    and "fval (roundf (Fin r)) = of_int (spec_round r)"
    and "same_value (roundf (Fin r)) (Fin (of_int (spec_round r)))"
  by (auto simp: roundf_def spec_round_def Let_def zero_of_def same_value_def abs_if)

lemma clamp_spec:
  assumes "same_value v (Fin (of_int n))" "a \<le> b"
  shows "same_value (fminf (Fin (of_int b)) (fmaxf (Fin (of_int a)) v))
           (Fin (of_int (spec_clamp n a b)))"
proof (cases "v = Fin (of_int n)")
  case True
  then show ?thesis by (simp add: spec_clamp_def of_int_min of_int_max)
next
  case False
  with assms(1) have "v = NZero" "n = 0" by (auto simp: same_value_def is_zero_cases)
  then show ?thesis using assms(2)
    by (auto simp: same_value_def spec_clamp_def min_def max_def)
qed

lemma quantize_spec:
  assumes "a \<le> b"
  shows "same_value (fminf (Fin (of_int b)) (fmaxf (Fin (of_int a)) (roundf t)))
           (Fin (of_int (spec_quantize t a b)))"
proof (cases t)
  case NaN
  then show ?thesis using assms by (simp add: roundf_def spec_quantize_def min_def)
next
  case PInf
  then show ?thesis by (simp add: roundf_def spec_quantize_def)
next
  case NInf
  then show ?thesis using assms by (simp add: roundf_def spec_quantize_def min_def)
next
  case NZero
  have "same_value (roundf NZero) (Fin (of_int 0))" by (simp add: roundf_def same_value_def)
  from clamp_spec [OF this assms] show ?thesis using NZero by (simp add: spec_quantize_def)
next
  case (Fin r)
  from clamp_spec [OF roundf_spec(4) assms] show ?thesis using Fin
    by (simp add: spec_quantize_def)
qed

lemma spec_quantize_range:
  assumes "a \<le> b"
  shows "a \<le> spec_quantize t a b" and "spec_quantize t a b \<le> b"
  using assms by (cases t; simp add: spec_quantize_def spec_clamp_def)+

lemma fsub_spec:
  assumes "same_value c (Fin (of_int q))" "\<bar>q - z\<bar> \<le> 2 ^ 24"
  shows "same_value (fsub32 c (Fin (of_int z))) (Fin (of_int (q - z)))"
proof -
  have "same_value (fsub32 (Fin (of_int q)) (Fin (of_int z))) (Fin (of_int (q - z)))"
  proof (cases "q = z")
    case True
    then show ?thesis by (simp add: fsub_def fadd_def fneg_def same_value_def)
  next
    case False
    have e: "round32 (of_int (q - z)) = Fin (of_int (q - z))"
      by (rule round32_exact_int_le [OF assms(2)])
    show ?thesis
    proof (cases "z = 0")
      case True
      with False e show ?thesis by (simp add: fsub_def fadd_def fneg_def)
    next
      case z: False
      with False e show ?thesis by (simp add: fsub_def fadd_def fneg_def)
    qed
  qed
  with fsub_same_value [OF assms(1)] show ?thesis by (blast intro: same_value_trans)
qed

lemma dequantize_spec:
  assumes "same_value d (Fin (of_int D))"
  shows "same_value (to_float (fmul64 (to_double d) scale)) (spec_dequantize D scale)"
proof -
  have "same_value (to_float (fmul64 (Fin (of_int D)) scale)) (spec_dequantize D scale)"
  proof (cases scale)
    case (Fin s)
    then show ?thesis
      by (cases "D = 0 \<or> s = 0") (auto simp: fmul_def spec_dequantize_def same_value_def)
  qed (auto simp: fmul_def spec_dequantize_def same_value_def zero_of_def inf_of_def)
  moreover have "same_value (to_float (fmul64 (to_double d) scale))
      (to_float (fmul64 (Fin (of_int D)) scale))"
    unfolding to_double_def by (intro to_float_same_value fmul_same_value assms)
  ultimately show ?thesis by (blast intro: same_value_trans)
qed

lemma forward_op_spec:
  assumes "sint quant_min \<le> sint quant_max" "0 \<le> sint zero_point"
    and "sint quant_max \<le> 2 ^ 24" "sint zero_point \<le> 2 ^ 24"
    and "sint zero_point - sint quant_min \<le> 2 ^ 24"
  shows "same_value (forward_op scale zero_point quant_min quant_max (inv_scale_of scale) x r)
           (spec_forward scale (sint zero_point) (sint quant_min) (sint quant_max) x)"
proof -
  define q where "q = spec_quantize (spec_affine x (spec_inv_scale scale) (sint zero_point))
    (sint quant_min) (sint quant_max)"
  have z: "int64_to_float zero_point = Fin (of_int (sint zero_point))"
    using assms(2,4) by (intro int64_to_float_exact) simp
  have lo: "int64_to_float quant_min = Fin (of_int (sint quant_min))"
    using assms by (intro int64_to_float_exact) simp
  have hi: "int64_to_float quant_max = Fin (of_int (sint quant_max))"
    using assms by (intro int64_to_float_exact) simp
  have t: "fmaf x (inv_scale_of scale) (int64_to_float zero_point)
      = spec_affine x (spec_inv_scale scale) (sint zero_point)"
    by (simp only: z inv_scale_of_spec fmaf_spec [OF assms(2)])
  have c: "same_value
      (fminf (int64_to_float quant_max) (fmaxf (int64_to_float quant_min)
         (roundf (fmaf x (inv_scale_of scale) (int64_to_float zero_point)))))
      (Fin (of_int q))"
    unfolding t lo hi q_def by (rule quantize_spec [OF assms(1)])
  have "sint quant_min \<le> q" "q \<le> sint quant_max"
    unfolding q_def by (rule spec_quantize_range [OF assms(1)])+
  then have "\<bar>q - sint zero_point\<bar> \<le> 2 ^ 24" using assms by simp
  from fsub_spec [OF c this] have "same_value
      (fsub32 (fminf (int64_to_float quant_max) (fmaxf (int64_to_float quant_min)
         (roundf (fmaf x (inv_scale_of scale) (int64_to_float zero_point)))))
         (int64_to_float zero_point))
      (Fin (of_int (q - sint zero_point)))"
    by (simp only: z)
  from dequantize_spec [OF this, of scale] show ?thesis
    by (simp only: forward_op_def spec_forward_def q_def)
qed

lemma fle_finite:
  assumes "\<not> is_nan v" "\<not> is_inf v"
  shows "fle (Fin a) v \<longleftrightarrow> a \<le> fval v" and "fle v (Fin b) \<longleftrightarrow> fval v \<le> b"
  using assms by (cases v; simp add: fle_def)+

lemma backward_op_spec:
  assumes "0 \<le> sint zero_point" "- (2 ^ 24) \<le> sint quant_min" "sint quant_min \<le> sint quant_max"
    and "sint quant_max \<le> 2 ^ 24" "sint zero_point \<le> 2 ^ 24"
  shows "backward_op zero_point quant_min quant_max (inv_scale_of scale) x r =
           bool_to_float (spec_in_range (spec_affine x (spec_inv_scale scale) (sint zero_point))
             (sint quant_min) (sint quant_max))"
proof -
  define t where "t = spec_affine x (spec_inv_scale scale) (sint zero_point)"
  have z: "int64_to_float zero_point = Fin (of_int (sint zero_point))"
    using assms(1,5) by (intro int64_to_float_exact) simp
  have lo: "int64_to_float quant_min = Fin (of_int (sint quant_min))"
    using assms by (intro int64_to_float_exact) simp
  have hi: "int64_to_float quant_max = Fin (of_int (sint quant_max))"
    using assms by (intro int64_to_float_exact) simp
  have t: "fmaf x (inv_scale_of scale) (int64_to_float zero_point) = t"
    by (simp only: z inv_scale_of_spec fmaf_spec [OF assms(1)] t_def)
  have "(fge (roundf t) (Fin (of_int (sint quant_min)))
         \<and> fle (roundf t) (Fin (of_int (sint quant_max))))
        = spec_in_range t (sint quant_min) (sint quant_max)"
  proof (cases t)
    case (Fin v)
    have "fge (roundf (Fin v)) (Fin (of_int (sint quant_min))) \<longleftrightarrow> sint quant_min \<le> spec_round v"
      unfolding fge_def fle_finite(1) [OF roundf_spec(1,2)] roundf_spec(3)
      by (simp only: of_int_le_iff)
    moreover have "fle (roundf (Fin v)) (Fin (of_int (sint quant_max))) \<longleftrightarrow> spec_round v \<le> sint quant_max"
      unfolding fle_finite(2) [OF roundf_spec(1,2)] roundf_spec(3)
      by (simp only: of_int_le_iff)
    ultimately show ?thesis using Fin by (simp only: spec_in_range_def fp.case)
  next
    case NZero
    have n: "\<not> is_nan NZero" "\<not> is_inf NZero" by simp_all
    have "fge NZero (Fin (of_int (sint quant_min))) \<longleftrightarrow> sint quant_min \<le> 0"
      unfolding fge_def fle_finite(1) [OF n] by (simp only: fval.simps of_int_le_0_iff)
    moreover have "fle NZero (Fin (of_int (sint quant_max))) \<longleftrightarrow> 0 \<le> sint quant_max"
      unfolding fle_finite(2) [OF n] by (simp only: fval.simps of_int_0_le_iff)
    moreover have "roundf NZero = NZero" by (simp add: roundf_def)
    ultimately show ?thesis using NZero by (simp only: spec_in_range_def fp.case)
  qed (simp_all add: fge_def fle_def roundf_def spec_in_range_def)
  then show ?thesis
    by (simp only: backward_op_def t lo hi Let_def t_def)
qed

lemma mask_product_spec:
  assumes "is_float g"
  shows "same_value (fmul32 (bool_to_float m) g)
           (if m then g else if is_nan g \<or> is_inf g then NaN else Fin 0)"
  using assms
  by (cases g)
    (auto simp: fmul_def bool_to_float_def same_value_def is_float_def to_float_def
      zero_of_def inf_of_def)

subsection \<open>Rounding errors and requantization\<close>

text \<open>
  A rounding changes a value \<open>a\<close> by at most half a unit in the last place,
  \<open>2 ^ (max \<lfloor>log\<^sub>2 a\<rfloor> emin - p)\<close>; a value rounded to double and then to float is off by
  at most \<open>1 + 2 ^ - 29\<close> times half a unit in the last place of the float, unless it
  overflows.  For a level \<open>q\<close> below \<open>2 ^ 22\<close>, with \<open>q - zero_point\<close> below \<open>2 ^ 22\<close> too, whose
  dequantized value is finite, that value times \<open>1 / scale\<close> plus \<open>zero_point\<close> is
  therefore less than \<open>3 / 8\<close> away from \<open>q\<close>; rounded to float it moves by at most \<open>1 / 8\<close>
  more, and so rounds back to \<open>q\<close>.  A dequantized value that overflows requantizes to an
  extreme level, which overflows to the same infinity; and when the float \<open>1 / scale\<close> is
  zero the transform yields the level of \<open>zero_point\<close> or of \<open>quant_min\<close>, again a fixed
  point.
\<close>

lemma spec_round_near:
  assumes "\<bar>tv - of_int k\<bar> < 1 / 2"
  shows "spec_round tv = k"
proof (cases "tv < 0")
  case True
  have "rat_of_int (- k) \<le> - tv + 1 / 2" "- tv + 1 / 2 < of_int (- k) + 1"
    using assms by (simp_all add: abs_if split: if_splits)
  then have "\<lfloor>- tv + 1 / 2\<rfloor> = - k" by (rule floor_unique)
  with True show ?thesis by (simp add: spec_round_def)
next
  case False
  have "rat_of_int k \<le> tv + 1 / 2" "tv + 1 / 2 < of_int k + 1"
    using assms by (simp_all add: abs_if split: if_splits)
  then have "\<lfloor>tv + 1 / 2\<rfloor> = k" by (rule floor_unique)
  with False show ?thesis by (simp add: spec_round_def)
qed

lemma fval_zero_of [simp]: "fval (zero_of b) = 0"
  by (simp add: zero_of_def)

lemma to_float_inf_of [simp]: "to_float (inf_of b) = inf_of b"
  by (simp add: inf_of_def)

lemma inf_of_props [simp]:
  "is_inf (inf_of b)" "\<not> is_nan (inf_of b)" "\<not> is_zero (inf_of b)" "sign_bit (inf_of b) = b"
  by (simp_all add: inf_of_def)

lemma double_round_nonneg:
  assumes "0 \<le> a"
  shows "0 \<le> round_mag 24 (- 126) (round_mag 53 (- 1022) a)"
  by (intro round_mag_nonneg assms)

lemma double_round_mono:
  assumes "0 \<le> a" "a \<le> b"
  shows "round_mag 24 (- 126) (round_mag 53 (- 1022) a)
         \<le> round_mag 24 (- 126) (round_mag 53 (- 1022) b)"
proof (cases "round_mag 53 (- 1022) a = 0")
  case True
  have "0 \<le> b" using assms by simp
  from double_round_nonneg [OF this] True show ?thesis by simp
next
  case False
  then have a: "0 < a" using assms(1) by (cases "a = 0") simp_all
  have "0 \<le> round_mag 53 (- 1022) a" by (intro round_mag_nonneg assms)
  with False have "0 < round_mag 53 (- 1022) a" by simp
  moreover have "round_mag 53 (- 1022) a \<le> round_mag 53 (- 1022) b"
    using a assms(2) by (intro round_mag_mono) simp_all
  ultimately show ?thesis by (rule round_mag_mono) simp
qed

lemma double_round_two_powi:
  assumes "- 149 \<le> j"
  shows "round_mag 24 (- 126) (round_mag 53 (- 1022) (2 powi j)) = 2 powi j"
proof -
  have "round_mag 53 (- 1022) (2 powi j) = 2 powi j"
    using assms by (intro round_mag_two_powi) simp_all
  moreover have "round_mag 24 (- 126) (2 powi j) = 2 powi j"
    using assms by (intro round_mag_two_powi) simp_all
  ultimately show ?thesis by simp
qed

lemma to_float_round64:
  assumes "M = round_mag 24 (- 126) (round_mag 53 (- 1022) \<bar>v\<bar>)"
  shows "to_float (round64 v) =
           (if M = 0 then zero_of (v < 0)
            else if 127 < ilog2 M then inf_of (v < 0)
            else Fin (if v < 0 then - M else M))"
proof -
  define m where "m = round_mag 53 (- 1022) \<bar>v\<bar>"
  have M: "M = round_mag 24 (- 126) m" using assms by (simp add: m_def)
  have m0: "0 \<le> m" unfolding m_def by (rule round_mag_nonneg) simp
  consider "m = 0" | "m \<noteq> 0" "1023 < ilog2 m" | "m \<noteq> 0" "ilog2 m \<le> 1023" by linarith
  then show ?thesis
  proof cases
    case 1
    then show ?thesis
      by (simp add: round64_def fround_def Let_def m_def [symmetric] M)
  next
    case 2
    with m0 have mp: "0 < m" by simp
    have "(2::rat) powi 1024 \<le> 2 powi ilog2 m"
      using 2(2) by (intro power_int_increasing) simp_all
    also have "\<dots> \<le> m" by (rule ilog2_lower [OF mp])
    finally have big: "2 powi 1024 \<le> m" .
    have "round_mag 24 (- 126) (2 powi 1024) \<le> M"
      unfolding M using big by (intro round_mag_mono) simp_all
    moreover have "round_mag 24 (- 126) (2 powi 1024) = 2 powi 1024"
      by (intro round_mag_two_powi) simp_all
    ultimately have Mb: "2 powi 1024 \<le> M" by simp
    then have Mp: "0 < M" using two_powi_pos [of 1024] by linarith
    have "ilog2 ((2::rat) powi 1024) \<le> ilog2 M" using Mb by (intro ilog2_mono) simp_all
    then have "127 < ilog2 M" by (simp only: ilog2_two_powi)
    moreover have "round64 v = inf_of (v < 0)"
      using 2 by (simp add: round64_def fround_def Let_def m_def [symmetric])
    ultimately show ?thesis using Mp by simp
  next
    case 3
    with m0 have mp: "0 < m" by simp
    have r: "round64 v = Fin (if v < 0 then - m else m)"
      using 3 by (simp add: round64_def fround_def Let_def m_def [symmetric])
    have a: "\<bar>if v < 0 then - m else m\<bar> = m" using mp by simp
    have s: "((if v < 0 then - m else m) < 0) = (v < 0)" using mp by simp
    show ?thesis
      by (simp only: r to_float_def fp.case round32_def fround_def Let_def a s M [symmetric])
  qed
qed

lemma to_float_round64_not_nan: "\<not> is_nan (to_float (round64 v))"
  by (simp add: to_float_round64 [OF refl] zero_of_def inf_of_def)

lemma to_float_round64_sign: "sign_bit (to_float (round64 v)) = (v < 0)"
proof -
  have "0 \<le> round_mag 24 (- 126) (round_mag 53 (- 1022) \<bar>v\<bar>)"
    by (rule double_round_nonneg) simp
  then show ?thesis
    by (auto simp: to_float_round64 [OF refl] zero_of_def inf_of_def)
qed

lemma to_float_round64_overflow:
  assumes "2 powi 128 \<le> \<bar>v\<bar>"
  shows "to_float (round64 v) = inf_of (v < 0)"
proof -
  define M where "M = round_mag 24 (- 126) (round_mag 53 (- 1022) \<bar>v\<bar>)"
  have e: "round_mag 24 (- 126) (round_mag 53 (- 1022) (2 powi 128)) = 2 powi 128"
    by (rule double_round_two_powi) simp
  have "round_mag 24 (- 126) (round_mag 53 (- 1022) (2 powi 128)) \<le> M"
    unfolding M_def using assms by (intro double_round_mono) simp_all
  then have Mb: "2 powi 128 \<le> M" by (simp only: e)
  then have Mp: "0 < M" using two_powi_pos [of 128] by linarith
  have "ilog2 ((2::rat) powi 128) \<le> ilog2 M" using Mb by (intro ilog2_mono) simp_all
  then have "127 < ilog2 M" by (simp only: ilog2_two_powi)
  with Mp show ?thesis by (simp add: to_float_round64 [OF M_def])
qed

lemma to_float_round64_finite:
  assumes "\<bar>v\<bar> \<le> 2 powi 127"
  shows "\<not> is_inf (to_float (round64 v))"
proof -
  define M where "M = round_mag 24 (- 126) (round_mag 53 (- 1022) \<bar>v\<bar>)"
  have M0: "0 \<le> M" unfolding M_def by (rule double_round_nonneg) simp
  have e: "round_mag 24 (- 126) (round_mag 53 (- 1022) (2 powi 127)) = 2 powi 127"
    by (rule double_round_two_powi) simp
  have "M \<le> round_mag 24 (- 126) (round_mag 53 (- 1022) (2 powi 127))"
    unfolding M_def using assms by (intro double_round_mono) simp_all
  then have Mb: "M \<le> 2 powi 127" by (simp only: e)
  show ?thesis
  proof (cases "M = 0")
    case True
    then show ?thesis by (simp add: to_float_round64 [OF M_def] zero_of_def)
  next
    case False
    with M0 have "0 < M" by simp
    then have "ilog2 M \<le> ilog2 ((2::rat) powi 127)" using Mb by (intro ilog2_mono)
    then have "ilog2 M \<le> 127" by (simp only: ilog2_two_powi)
    with False show ?thesis by (simp add: to_float_round64 [OF M_def])
  qed
qed

lemma to_float_round64_inf_mono:
  assumes "is_inf (to_float (round64 v))" "\<bar>v\<bar> \<le> \<bar>w\<bar>" "(w < 0) = (v < 0)"
  shows "to_float (round64 w) = to_float (round64 v)"
proof -
  define M where "M = round_mag 24 (- 126) (round_mag 53 (- 1022) \<bar>v\<bar>)"
  define N where "N = round_mag 24 (- 126) (round_mag 53 (- 1022) \<bar>w\<bar>)"
  have M0: "0 \<le> M" unfolding M_def by (rule double_round_nonneg) simp
  have v: "M \<noteq> 0" "127 < ilog2 M"
    using assms(1) unfolding to_float_round64 [OF M_def]
    by (auto simp: zero_of_def split: if_splits)
  then have Mp: "0 < M" using M0 by simp
  have MN: "M \<le> N" unfolding M_def N_def using assms(2) by (intro double_round_mono) simp_all
  then have "ilog2 M \<le> ilog2 N" using Mp by (intro ilog2_mono)
  with v MN Mp have "N \<noteq> 0" "127 < ilog2 N" by simp_all
  then show ?thesis
    using v assms(3) by (simp add: to_float_round64 [OF M_def] to_float_round64 [OF N_def])
qed

lemma to_float_round64_zero:
  assumes "is_zero (to_float (round64 v))"
  shows "\<bar>v\<bar> < 2 powi (- 149)"
proof (rule ccontr)
  assume "\<not> \<bar>v\<bar> < 2 powi (- 149)"
  then have b: "2 powi (- 149) \<le> \<bar>v\<bar>" by simp
  define M where "M = round_mag 24 (- 126) (round_mag 53 (- 1022) \<bar>v\<bar>)"
  have e: "round_mag 24 (- 126) (round_mag 53 (- 1022) (2 powi (- 149))) = 2 powi (- 149)"
    by (rule double_round_two_powi) simp
  have "round_mag 24 (- 126) (round_mag 53 (- 1022) (2 powi (- 149))) \<le> M"
    unfolding M_def using b by (intro double_round_mono) simp_all
  then have "2 powi (- 149) \<le> M" by (simp only: e)
  then have "0 < M" using two_powi_pos [of "- 149"] by linarith
  then show False
    using assms unfolding to_float_round64 [OF M_def]
    by (auto simp: inf_of_def split: if_splits)
qed

lemma round_mag_half_ulp:
  assumes "0 < a"
  shows "\<bar>round_mag p emin a - a\<bar> \<le> 2 powi (max (ilog2 a) emin - int p)"
proof -
  define u :: rat where "u = 2 powi (max (ilog2 a) emin - int p + 1)"
  have u: "0 < u" by (simp add: u_def)
  have rm: "round_mag p emin a = of_int (rne (a / u)) * u"
    by (simp add: round_mag_def Let_def u_def)
  have "round_mag p emin a - a = (of_int (rne (a / u)) - a / u) * u"
    using u by (simp add: rm field_simps)
  then have "\<bar>round_mag p emin a - a\<bar> = \<bar>of_int (rne (a / u)) - a / u\<bar> * u"
    using u by (simp add: abs_mult)
  also have "\<dots> \<le> 1 / 2 * u"
    using rne_err [of "a / u"] u by (intro mult_right_mono) simp_all
  also have "1 / 2 * u = 2 powi (max (ilog2 a) emin - int p)"
  proof -
    have "u = 2 powi (max (ilog2 a) emin - int p) * 2"
      unfolding u_def by (rule power_int_add_1) simp
    then show ?thesis by simp
  qed
  finally show ?thesis .
qed

lemma round_mag_err_exp:
  assumes "0 < a" "a \<le> 2 powi (e + 1)" "0 < p"
  shows "\<bar>round_mag p emin a - a\<bar> \<le> 2 powi (max e emin - int p)"
proof (cases "ilog2 a \<le> e")
  case True
  have "\<bar>round_mag p emin a - a\<bar> \<le> 2 powi (max (ilog2 a) emin - int p)"
    by (rule round_mag_half_ulp [OF assms(1)])
  also have "\<dots> \<le> 2 powi (max e emin - int p)"
    using True by (intro power_int_increasing) simp_all
  finally show ?thesis .
next
  case False
  have "ilog2 a \<le> ilog2 ((2::rat) powi (e + 1))" using assms(1,2) by (rule ilog2_mono)
  then have "ilog2 a \<le> e + 1" by (simp only: ilog2_two_powi)
  with False have il: "ilog2 a = e + 1" by simp
  have "2 powi (e + 1) \<le> a" using ilog2_lower [OF assms(1)] by (simp only: il)
  with assms(2) have a: "a = 2 powi (e + 1)" by simp
  show ?thesis
  proof (cases "emin - int p + 1 \<le> e + 1")
    case True
    have "round_mag p emin (2 powi (e + 1)) = 2 powi (e + 1)"
      by (rule round_mag_two_powi [OF assms(3) True])
    then show ?thesis by (simp add: a)
  next
    case False
    then have "max (ilog2 a) emin = max e emin" using il assms(3) by simp
    with round_mag_half_ulp [OF assms(1), of p emin] show ?thesis by simp
  qed
qed

lemma double_round_half_ulp:
  assumes "0 < a"
  shows "\<bar>round_mag 24 (- 126) (round_mag 53 (- 1022) a) - a\<bar>
         \<le> (1 + 1 / 2 ^ 29) * 2 powi (max (ilog2 a) (- 126) - 24)"
proof -
  define e where "e = ilog2 a"
  define e0 where "e0 = max e (- 150)"
  define m where "m = round_mag 53 (- 1022) a"
  define M where "M = round_mag 24 (- 126) m"
  define h :: rat where "h = 2 powi (max e (- 126) - 24)"
  have h: "0 < h" by (simp add: h_def)
  have m0: "0 \<le> m" unfolding m_def using assms by (intro round_mag_nonneg) simp
  have "\<bar>m - a\<bar> \<le> 2 powi (max e (- 1022) - int 53)"
    unfolding m_def e_def by (rule round_mag_half_ulp [OF assms])
  also have "\<dots> \<le> 2 powi (max e (- 126) - 24 + (- 29))"
    by (intro power_int_increasing) simp_all
  also have "\<dots> = h * 2 powi (- 29)" unfolding h_def by (rule two_powi_split)
  also have "\<dots> = (1 / 2 ^ 29) * h" by (simp add: power_int_minus_divide)
  finally have e1: "\<bar>m - a\<bar> \<le> (1 / 2 ^ 29) * h" .
  have "a < 2 powi (e + 1)" unfolding e_def by (rule ilog2_upper [OF assms])
  also have "\<dots> \<le> 2 powi (e0 + 1)" unfolding e0_def by (intro power_int_increasing) simp_all
  finally have a: "a \<le> 2 powi (e0 + 1)" by simp
  have "m \<le> round_mag 53 (- 1022) (2 powi (e0 + 1))"
    unfolding m_def using assms a by (intro round_mag_mono) simp_all
  also have "\<dots> = 2 powi (e0 + 1)"
    unfolding e0_def by (intro round_mag_two_powi) simp_all
  finally have mu: "m \<le> 2 powi (e0 + 1)" .
  have e2: "\<bar>M - m\<bar> \<le> h"
  proof (cases "m = 0")
    case True
    then show ?thesis using h by (simp add: M_def)
  next
    case False
    with m0 have "0 < m" by simp
    from round_mag_err_exp [OF this mu, of 24 "- 126"]
    have "\<bar>M - m\<bar> \<le> 2 powi (max e0 (- 126) - int 24)" by (simp add: M_def)
    moreover have "max e0 (- 126) = max e (- 126)" by (simp add: e0_def)
    ultimately show ?thesis by (simp add: h_def)
  qed
  have "\<bar>M - a\<bar> \<le> h + (1 / 2 ^ 29) * h" using e1 e2 by linarith
  then show ?thesis by (simp add: M_def m_def h_def e_def algebra_simps)
qed

lemma to_float_round64_half_ulp:
  assumes "\<not> is_inf (to_float (round64 v))" "v \<noteq> 0"
  shows "\<bar>fval (to_float (round64 v)) - v\<bar>
         \<le> (1 + 1 / 2 ^ 29) * 2 powi (max (ilog2 \<bar>v\<bar>) (- 126) - 24)"
proof -
  define M where "M = round_mag 24 (- 126) (round_mag 53 (- 1022) \<bar>v\<bar>)"
  have M0: "0 \<le> M" unfolding M_def by (rule double_round_nonneg) simp
  have "fval (to_float (round64 v)) = (if v < 0 then - M else M)"
    using assms(1) unfolding to_float_round64 [OF M_def]
    by (auto split: if_splits)
  then have "\<bar>fval (to_float (round64 v)) - v\<bar> = \<bar>M - \<bar>v\<bar>\<bar>" by auto
  also have "\<dots> \<le> (1 + 1 / 2 ^ 29) * 2 powi (max (ilog2 \<bar>v\<bar>) (- 126) - 24)"
    unfolding M_def using assms(2) by (intro double_round_half_ulp) simp
  finally show ?thesis .
qed

lemma ilog2_less:
  assumes "0 < a" "a < 2 powi n"
  shows "ilog2 a < n"
proof -
  have "2 powi ilog2 a < (2::rat) powi n" using ilog2_lower [OF assms(1)] assms(2) by linarith
  then show ?thesis by (rule two_powi_less_imp)
qed

lemma round32_below_two22:
  assumes "\<bar>w\<bar> < 2 ^ 22"
  shows "\<not> is_nan (round32 w)" and "\<not> is_inf (round32 w)"
    and "\<bar>fval (round32 w) - w\<bar> \<le> 1 / 8"
proof -
  define m where "m = round_mag 24 (- 126) \<bar>w\<bar>"
  have m0: "0 \<le> m" unfolding m_def by (rule round_mag_nonneg) simp
  have r: "round32 w = (if m = 0 then zero_of (w < 0)
      else if 127 < ilog2 m then inf_of (w < 0) else Fin (if w < 0 then - m else m))"
    by (simp add: round32_def fround_def Let_def m_def)
  have fin: "m = 0 \<or> ilog2 m \<le> 127"
  proof (cases "m = 0")
    case False
    with m0 have mp: "0 < m" by simp
    then have wp: "0 < \<bar>w\<bar>" by (cases "w = 0") (simp_all add: m_def)
    have "\<bar>w\<bar> \<le> 2 powi 22" using assms by simp
    then have "m \<le> round_mag 24 (- 126) (2 powi 22)"
      unfolding m_def using wp by (intro round_mag_mono) simp_all
    also have "\<dots> = 2 powi 22" by (intro round_mag_two_powi) simp_all
    finally have "ilog2 m \<le> ilog2 ((2::rat) powi 22)" using mp by (intro ilog2_mono)
    then have "ilog2 m \<le> 22" by (simp only: ilog2_two_powi)
    then show ?thesis by simp
  qed simp
  show "\<not> is_nan (round32 w)" using fin by (simp add: r zero_of_def)
  show "\<not> is_inf (round32 w)" using fin by (auto simp: r zero_of_def)
  have f: "fval (round32 w) = (if w < 0 then - m else m)" using fin by (auto simp: r)
  have "\<bar>m - \<bar>w\<bar>\<bar> \<le> 1 / 8"
  proof (cases "w = 0")
    case True
    then show ?thesis by (simp add: m_def)
  next
    case False
    then have wp: "0 < \<bar>w\<bar>" by simp
    have "\<bar>w\<bar> < 2 powi 22" using assms by simp
    then have "ilog2 \<bar>w\<bar> < 22" by (rule ilog2_less [OF wp])
    then have "max (ilog2 \<bar>w\<bar>) (- 126) - int 24 \<le> - 3" by simp
    then have "(2::rat) powi (max (ilog2 \<bar>w\<bar>) (- 126) - int 24) \<le> 2 powi (- 3)"
      by (intro power_int_increasing) simp_all
    with round_mag_half_ulp [OF wp, of 24 "- 126"] show ?thesis
      by (simp add: m_def power_int_minus_divide)
  qed
  moreover have "\<bar>fval (round32 w) - w\<bar> = \<bar>m - \<bar>w\<bar>\<bar>" unfolding f by auto
  ultimately show "\<bar>fval (round32 w) - w\<bar> \<le> 1 / 8" by simp
qed

lemma quantize_near:
  assumes "\<bar>w - of_int k\<bar> < 3 / 8" "\<bar>k\<bar> < 2 ^ 22"
    and "quant_min \<le> k" "k \<le> quant_max"
  shows "spec_quantize (round32 w) quant_min quant_max = k"
proof -
  have "\<bar>k\<bar> \<le> 4194303" using assms(2) by simp
  then have "rat_of_int \<bar>k\<bar> \<le> of_int 4194303" by (simp only: of_int_le_iff)
  then have kb: "\<bar>rat_of_int k\<bar> \<le> 4194303" by simp
  have "\<bar>w\<bar> \<le> \<bar>w - rat_of_int k\<bar> + \<bar>rat_of_int k\<bar>" by linarith
  then have "\<bar>w\<bar> < 4194304" using assms(1) kb by linarith
  then have w: "\<bar>w\<bar> < 2 ^ 22" by simp
  note r = round32_below_two22 [OF w]
  have near: "\<bar>fval (round32 w) - of_int k\<bar> < 1 / 2" using r(3) assms(1) by linarith
  have c: "spec_clamp k quant_min quant_max = k"
    using assms(3,4) by (simp add: spec_clamp_def)
  show ?thesis
  proof (cases "round32 w")
    case (Fin tv)
    then have "spec_round tv = k" using near by (intro spec_round_near) simp
    then show ?thesis using c Fin by (simp add: spec_quantize_def)
  next
    case NZero
    then have "\<bar>rat_of_int k\<bar> < 1" using near by simp
    then have "\<bar>k\<bar> < 1" by (metis of_int_abs of_int_less_1_iff)
    then have "k = 0" by simp
    then show ?thesis using c NZero by (simp add: spec_quantize_def)
  qed (use r in simp_all)
qed

lemma same_value_props:
  assumes "same_value a b"
  shows "is_nan a = is_nan b" and "is_inf a = is_inf b" and "fval a = fval b"
  using assms by (auto simp: same_value_def is_zero_cases)

lemma spec_inv_scale_Fin:
  assumes "sv \<noteq> 0"
  shows "spec_inv_scale (Fin sv) = to_float (round64 (1 / sv))"
  using assms by (simp add: spec_inv_scale_def)

lemma spec_dequantize_Fin:
  assumes "D \<noteq> 0" "sv \<noteq> 0"
  shows "spec_dequantize D (Fin sv) = to_float (round64 (of_int D * sv))"
  using assms by (simp add: spec_dequantize_def)

lemma scale_facts:
  assumes "2 powi (- 127) \<le> \<bar>sv\<bar>"
  shows "sv \<noteq> 0" and "\<bar>1 / sv\<bar> \<le> 2 powi 127"
    and "\<not> is_nan (spec_inv_scale (Fin sv))" and "\<not> is_inf (spec_inv_scale (Fin sv))"
    and "sign_bit (spec_inv_scale (Fin sv)) = (sv < 0)"
proof -
  have pos: "0 < \<bar>sv\<bar>" using assms two_powi_pos [of "- 127"] by linarith
  then show sv: "sv \<noteq> 0" by auto
  have "1 / \<bar>sv\<bar> \<le> 1 / 2 powi (- 127)"
    using assms by (intro divide_left_mono) simp_all
  moreover have "(2::rat) powi 127 = 1 / 2 powi (- 127)" by (simp add: power_int_minus_divide)
  ultimately show b: "\<bar>1 / sv\<bar> \<le> 2 powi 127" by simp
  show "\<not> is_nan (spec_inv_scale (Fin sv))"
    by (simp only: spec_inv_scale_Fin [OF sv] to_float_round64_not_nan not_False_eq_True)
  show "\<not> is_inf (spec_inv_scale (Fin sv))"
    unfolding spec_inv_scale_Fin [OF sv] by (rule to_float_round64_finite [OF b])
  show "sign_bit (spec_inv_scale (Fin sv)) = (sv < 0)"
    using sv by (simp add: spec_inv_scale_Fin [OF sv] to_float_round64_sign divide_less_0_iff)
qed

lemma two_powi_prod_le:
  fixes x y :: rat
  assumes "x \<le> 2 powi a" "y \<le> 2 powi b" "0 \<le> x" "0 \<le> y"
  shows "x * y \<le> 2 powi (a + b)"
proof -
  have "x * y \<le> 2 powi a * 2 powi b" using assms by (intro mult_mono) simp_all
  then show ?thesis by (simp only: two_powi_split)
qed

lemma half_ulp_products:
  fixes A B :: rat
  assumes "0 < A" "0 < B" "A * B < 2 ^ 22" "1 \<le> A * B" "A < 2 powi 128" "B \<le> 2 powi 127"
  shows "A * 2 powi (max (ilog2 B) (- 126) - 24) + B * 2 powi (max (ilog2 A) (- 126) - 24)
           \<le> (A * B + 2 ^ 21) / 2 ^ 24"
    and "(2::rat) powi (max (ilog2 A) (- 126) - 24) * 2 powi (max (ilog2 B) (- 126) - 24)
           \<le> 1 / 2 ^ 27"
proof -
  define j where "j = ilog2 A"
  define i where "i = ilog2 B"
  define hy :: rat where "hy = 2 powi (max j (- 126) - 24)"
  define hi :: rat where "hi = 2 powi (max i (- 126) - 24)"
  have Aj: "2 powi j \<le> A" "A < 2 powi (j + 1)"
    unfolding j_def by (rule ilog2_lower [OF assms(1)], rule ilog2_upper [OF assms(1)])
  have Bi: "2 powi i \<le> B" "B < 2 powi (i + 1)"
    unfolding i_def by (rule ilog2_lower [OF assms(2)], rule ilog2_upper [OF assms(2)])
  have j127: "j \<le> 127" using ilog2_less [OF assms(1,5)] by (simp add: j_def)
  have "ilog2 B \<le> ilog2 ((2::rat) powi 127)" using assms(2,6) by (rule ilog2_mono)
  then have i127: "i \<le> 127" by (simp only: ilog2_two_powi i_def)
  have h0: "0 \<le> hy" "0 \<le> hi" by (simp_all add: hy_def hi_def)
  have low: "(1 + 2 ^ 21) / 2 ^ 24 \<le> (A * B + 2 ^ 21) / (2 ^ 24 :: rat)"
    using assms(4) by (simp add: divide_right_mono)
  have both: "A * hi + B * hy \<le> (A * B + 2 ^ 21) / 2 ^ 24 \<and> hy * hi \<le> 1 / 2 ^ 27"
  proof -
    consider (nn) "- 126 \<le> j" "- 126 \<le> i" | (sy) "j < - 126" | (si) "- 126 \<le> j" "i < - 126"
      by linarith
    then show ?thesis
    proof cases
      case nn
      have y: "hy = 2 powi j * (1 / 2 ^ 24)"
      proof -
        have "hy = 2 powi (j + (- 24))" using nn(1) by (simp add: hy_def)
        also have "\<dots> = 2 powi j * 2 powi (- 24)" by (rule two_powi_split)
        finally show ?thesis by (simp add: power_int_minus_divide)
      qed
      have x: "hi = 2 powi i * (1 / 2 ^ 24)"
      proof -
        have "hi = 2 powi (i + (- 24))" using nn(2) by (simp add: hi_def)
        also have "\<dots> = 2 powi i * 2 powi (- 24)" by (rule two_powi_split)
        finally show ?thesis by (simp add: power_int_minus_divide)
      qed
      define u :: rat where "u = 2 powi j"
      define v :: rat where "v = 2 powi i"
      have uv0: "0 < u" "0 < v" by (simp_all add: u_def v_def)
      have "u * v \<le> A * B" using Aj(1) Bi(1) uv0 assms(1,2) unfolding u_def v_def
        by (intro mult_mono) simp_all
      then have "2 powi (j + i) < (2::rat) powi 22"
        using assms(3) by (simp add: two_powi_split u_def v_def)
      then have "j + i < 22" by (rule two_powi_less_imp)
      then have "(2::rat) powi (j + i) \<le> 2 powi 21" by (intro power_int_increasing) simp_all
      then have uv: "u * v \<le> 2 ^ 21" by (simp add: two_powi_split u_def v_def)
      have "0 \<le> (A - u) * (B - v)"
        using Aj(1) Bi(1) unfolding u_def v_def by (intro mult_nonneg_nonneg) simp_all
      then have "A * v + B * u \<le> A * B + u * v" by (simp add: algebra_simps)
      with uv have "A * v + B * u \<le> A * B + 2 ^ 21" by linarith
      then have "(A * v + B * u) / 2 ^ 24 \<le> (A * B + 2 ^ 21) / 2 ^ 24"
        by (rule divide_right_mono) simp
      moreover have "A * hi + B * hy = (A * v + B * u) / 2 ^ 24"
        by (simp add: x y u_def v_def algebra_simps)
      moreover have "hy * hi = (u * v) / 2 ^ 48"
        by (simp add: x y u_def v_def)
      moreover have "(u * v) / 2 ^ 48 \<le> 2 ^ 21 / (2 ^ 48 :: rat)"
        using uv by (rule divide_right_mono) simp
      ultimately show ?thesis by simp
    next
      case sy
      have hy: "hy = 2 powi (- 150)" using sy by (simp add: hy_def)
      have "(2::rat) powi (j + 1) \<le> 2 powi (- 126)"
        using sy by (intro power_int_increasing) simp_all
      with Aj(2) have A: "A \<le> 2 powi (- 126)" by linarith
      have hi: "hi \<le> 2 powi 103"
        unfolding hi_def using i127 by (intro power_int_increasing) simp_all
      have "A * hi \<le> 2 powi (- 126 + 103)"
        using A hi assms(1) h0 by (intro two_powi_prod_le) simp_all
      moreover have "B * hy \<le> 2 powi (127 + (- 150))"
        using assms(2,6) unfolding hy by (intro two_powi_prod_le) simp_all
      moreover have "hy * hi \<le> 2 powi (- 150 + 103)"
        using hi h0 unfolding hy by (intro two_powi_prod_le) simp_all
      ultimately have "A * hi + B * hy \<le> (1 + 2 ^ 21) / 2 ^ 24" "hy * hi \<le> 1 / 2 ^ 27"
        by (simp_all add: power_int_minus_divide)
      with low show ?thesis by linarith
    next
      case si
      have hi: "hi = 2 powi (- 150)" using si by (simp add: hi_def)
      have "(2::rat) powi (i + 1) \<le> 2 powi (- 126)"
        using si by (intro power_int_increasing) simp_all
      with Bi(2) have B: "B \<le> 2 powi (- 126)" by linarith
      have hy: "hy \<le> 2 powi 103"
        unfolding hy_def using j127 by (intro power_int_increasing) simp_all
      have A: "A \<le> 2 powi 128" using assms(5) by simp
      have "A * hi \<le> 2 powi (128 + (- 150))"
        using A assms(1) unfolding hi by (intro two_powi_prod_le) simp_all
      moreover have "B * hy \<le> 2 powi (- 126 + 103)"
        using B hy assms(2) h0 by (intro two_powi_prod_le) simp_all
      moreover have "hy * hi \<le> 2 powi (103 + (- 150))"
        using hy h0 unfolding hi by (intro two_powi_prod_le) simp_all
      ultimately have "A * hi + B * hy \<le> (1 + 2 ^ 21) / 2 ^ 24" "hy * hi \<le> 1 / 2 ^ 27"
        by (simp_all add: power_int_minus_divide)
      with low show ?thesis by linarith
    qed
  qed
  from both show "A * 2 powi (max (ilog2 B) (- 126) - 24)
      + B * 2 powi (max (ilog2 A) (- 126) - 24) \<le> (A * B + 2 ^ 21) / 2 ^ 24"
    by (simp add: hy_def hi_def j_def i_def)
  from both show "(2::rat) powi (max (ilog2 A) (- 126) - 24)
      * 2 powi (max (ilog2 B) (- 126) - 24) \<le> 1 / 2 ^ 27"
    by (simp add: hy_def hi_def j_def i_def)
qed

lemma requantize_error:
  assumes "2 powi (- 127) \<le> \<bar>sv\<bar>" "D \<noteq> 0" "\<bar>D\<bar> < 2 ^ 22"
    and "\<not> is_inf (spec_dequantize D (Fin sv))"
  shows "\<bar>fval (spec_dequantize D (Fin sv)) * fval (spec_inv_scale (Fin sv)) - of_int D\<bar>
         < 3 / 8"
proof -
  define d :: rat where "d = of_int D"
  define g :: rat where "g = 1 + 1 / 2 ^ 29"
  define A where "A = \<bar>d * sv\<bar>"
  define B where "B = \<bar>1 / sv\<bar>"
  define hy :: rat where "hy = 2 powi (max (ilog2 A) (- 126) - 24)"
  define hi :: rat where "hi = 2 powi (max (ilog2 B) (- 126) - 24)"
  define ey where "ey = fval (spec_dequantize D (Fin sv)) - d * sv"
  define ei where "ei = fval (spec_inv_scale (Fin sv)) - 1 / sv"
  note s = scale_facts [OF assms(1)]
  have d0: "d \<noteq> 0" using assms(2) by (simp add: d_def)
  have Y: "spec_dequantize D (Fin sv) = to_float (round64 (d * sv))"
    unfolding d_def by (rule spec_dequantize_Fin [OF assms(2) s(1)])
  have I: "spec_inv_scale (Fin sv) = to_float (round64 (1 / sv))"
    by (rule spec_inv_scale_Fin [OF s(1)])
  have B127: "B \<le> 2 powi 127" unfolding B_def by (rule s(2))
  have A128: "A < 2 powi 128"
  proof (rule ccontr)
    assume "\<not> A < 2 powi 128"
    then have "2 powi 128 \<le> \<bar>d * sv\<bar>" by (simp add: A_def)
    from to_float_round64_overflow [OF this] assms(4) show False
      by (simp add: Y)
  qed
  have A0: "0 < A" and B0: "0 < B" using d0 s(1) by (simp_all add: A_def B_def)
  have AB: "A * B = \<bar>d\<bar>" using s(1) by (simp add: A_def B_def abs_mult)
  have d1: "1 \<le> \<bar>d\<bar>" using assms(2) unfolding d_def
    by (metis of_int_abs of_int_1_le_iff zero_less_abs_iff int_one_le_iff_zero_less)
  have "\<bar>D\<bar> \<le> 4194303" using assms(3) by simp
  then have "rat_of_int \<bar>D\<bar> \<le> of_int 4194303" by (simp only: of_int_le_iff)
  then have d2: "\<bar>d\<bar> \<le> 4194303" by (simp add: d_def)
  have EY: "\<bar>ey\<bar> \<le> g * hy"
    using to_float_round64_half_ulp [of "d * sv"] assms(4) d0 s(1)
    by (simp add: ey_def g_def hy_def A_def Y)
  have EI: "\<bar>ei\<bar> \<le> g * hi"
    using to_float_round64_half_ulp [of "1 / sv"] s(1,4)
    by (simp add: ei_def g_def hi_def B_def I)
  have g0: "0 \<le> g" by (simp add: g_def)
  have h0: "0 \<le> hy" "0 \<le> hi" by (simp_all add: hy_def hi_def)
  have AB22: "A * B < 2 ^ 22" "1 \<le> A * B" using d1 d2 by (simp_all add: AB)
  from half_ulp_products [OF A0 B0 AB22 A128 B127]
  have k1: "A * hi + B * hy \<le> (\<bar>d\<bar> + 2 ^ 21) / 2 ^ 24" and k2: "hy * hi \<le> 1 / 2 ^ 27"
    by (simp_all only: hy_def hi_def AB)
  have id: "fval (spec_dequantize D (Fin sv)) * fval (spec_inv_scale (Fin sv)) - d
      = d * sv * ei + ey * (1 / sv) + ey * ei"
    using s(1) by (simp add: ey_def ei_def algebra_simps)
  have "\<bar>d * sv * ei\<bar> = A * \<bar>ei\<bar>" by (simp add: A_def abs_mult)
  also have "\<dots> \<le> A * (g * hi)" using EI A0 by (intro mult_left_mono) simp_all
  finally have t1: "\<bar>d * sv * ei\<bar> \<le> g * (A * hi)" by (simp add: algebra_simps)
  have "\<bar>ey * (1 / sv)\<bar> = \<bar>ey\<bar> * B" by (simp add: B_def abs_mult)
  also have "\<dots> \<le> (g * hy) * B" using EY B0 by (intro mult_right_mono) simp_all
  finally have t2: "\<bar>ey * (1 / sv)\<bar> \<le> g * (B * hy)" by (simp add: algebra_simps)
  have "\<bar>ey * ei\<bar> = \<bar>ey\<bar> * \<bar>ei\<bar>" by (rule abs_mult)
  also have "\<dots> \<le> (g * hy) * (g * hi)"
    using EY EI g0 h0 by (intro mult_mono) simp_all
  finally have t3: "\<bar>ey * ei\<bar> \<le> g * g * (hy * hi)" by (simp add: algebra_simps)
  define S where "S = A * hi + B * hy"
  define T where "T = hy * hi"
  have S: "S \<le> (4194303 + 2 ^ 21) / 2 ^ 24" using k1 d2 by (simp add: S_def)
  have T: "T \<le> 1 / 2 ^ 27" using k2 by (simp add: T_def)
  have "g * (A * hi) + g * (B * hy) = g * S" by (simp add: S_def algebra_simps)
  then have "\<bar>d * sv * ei + ey * (1 / sv) + ey * ei\<bar> \<le> g * S + g * g * T"
    using t1 t2 t3 unfolding T_def [symmetric] by linarith
  also have "g * S \<le> g * ((4194303 + 2 ^ 21) / 2 ^ 24)" using S g0 by (rule mult_left_mono)
  also have "g * g * T \<le> g * g * (1 / 2 ^ 27)" using T g0 by (intro mult_left_mono) simp_all
  also have "g * ((4194303 + 2 ^ 21) / 2 ^ 24) + g * g * (1 / 2 ^ 27) < 3 / 8"
    by (simp add: g_def)
  finally have "\<bar>fval (spec_dequantize D (Fin sv)) * fval (spec_inv_scale (Fin sv)) - d\<bar>
      < 3 / 8"
    by (simp only: id)
  then show ?thesis by (simp only: d_def)
qed

lemma spec_affine_finite:
  assumes "\<not> is_nan y" "\<not> is_inf y" "\<not> is_nan i" "\<not> is_inf i"
  shows "spec_affine y i z = round32 (fval y * fval i + of_int z)"
  using assms by (simp add: spec_affine_def)

lemma requantize_level:
  assumes "2 powi (- 127) \<le> \<bar>sv\<bar>"
    and "quant_min \<le> q" "q \<le> quant_max" "0 \<le> z"
    and "quant_max < 2 ^ 22" "z - quant_min < 2 ^ 22"
    and "same_value y (spec_dequantize (q - z) (Fin sv))"
    and "\<not> is_inf (spec_dequantize (q - z) (Fin sv))"
  shows "spec_quantize (spec_affine y (spec_inv_scale (Fin sv)) z) quant_min quant_max = q"
proof -
  note s = scale_facts [OF assms(1)]
  have qb: "\<bar>q\<bar> < 2 ^ 22" using assms(2-6) by simp
  have nn: "\<not> is_nan (spec_dequantize (q - z) (Fin sv))"
  proof (cases "q - z = 0")
    case True
    then show ?thesis by (simp add: spec_dequantize_def)
  next
    case False
    show ?thesis
      by (simp only: spec_dequantize_Fin [OF False s(1)] to_float_round64_not_nan
          not_False_eq_True)
  qed
  have y: "\<not> is_nan y" "\<not> is_inf y"
    using same_value_props(1,2) [OF assms(7)] nn assms(8) by simp_all
  have t: "spec_affine y (spec_inv_scale (Fin sv)) z
      = round32 (fval (spec_dequantize (q - z) (Fin sv)) * fval (spec_inv_scale (Fin sv))
          + of_int z)"
    by (simp only: spec_affine_finite [OF y s(3,4)] same_value_props(3) [OF assms(7)])
  have near: "\<bar>(fval (spec_dequantize (q - z) (Fin sv)) * fval (spec_inv_scale (Fin sv))
      + of_int z) - of_int q\<bar> < 3 / 8"
  proof (cases "q - z = 0")
    case True
    then show ?thesis by (simp add: spec_dequantize_def)
  next
    case False
    have "\<bar>q - z\<bar> < 2 ^ 22" using assms(2-6) by simp
    from requantize_error [OF assms(1) False this assms(8)] show ?thesis
      by (simp add: algebra_simps)
  qed
  show ?thesis unfolding t by (rule quantize_near [OF near qb assms(2,3)])
qed

lemma requantize_overflow:
  assumes "2 powi (- 127) \<le> \<bar>sv\<bar>"
    and "quant_min \<le> q" "q \<le> quant_max"
    and "same_value y (spec_dequantize (q - z) (Fin sv))"
    and "is_inf (spec_dequantize (q - z) (Fin sv))"
    and "\<not> is_zero (spec_inv_scale (Fin sv))"
  shows "spec_dequantize
           (spec_quantize (spec_affine y (spec_inv_scale (Fin sv)) z) quant_min quant_max - z)
           (Fin sv)
         = spec_dequantize (q - z) (Fin sv)"
proof -
  note s = scale_facts [OF assms(1)]
  define D where "D = q - z"
  define d :: rat where "d = of_int D"
  have D0: "D \<noteq> 0"
    using assms(5) by (auto simp: D_def spec_dequantize_def)
  then have d0: "d \<noteq> 0" by (simp add: d_def)
  have Y: "spec_dequantize D (Fin sv) = to_float (round64 (d * sv))"
    unfolding d_def by (rule spec_dequantize_Fin [OF D0 s(1)])
  have inf: "is_inf (to_float (round64 (d * sv)))"
    using assms(5) by (simp only: D_def [symmetric] Y)
  have yY: "y = spec_dequantize D (Fin sv)"
    using assms(4,5) by (auto simp: same_value_def D_def is_zero_cases)
  have ynan: "\<not> is_nan y" "is_inf y" "\<not> is_zero y"
    using inf to_float_round64_not_nan [of "d * sv"]
    by (auto simp: yY Y is_zero_cases)
  have sy: "sign_bit y = (d * sv < 0)"
    by (simp only: yY Y to_float_round64_sign)
  have sg: "((d * sv < 0) \<noteq> (sv < 0)) = (D < 0)"
    using s(1) d0 by (auto simp: d_def mult_less_0_iff not_less order.order_iff_strict)
  have t: "spec_affine y (spec_inv_scale (Fin sv)) z = inf_of (D < 0)"
    using ynan s(3) assms(6) sg by (simp add: spec_affine_def sy s(5))
  define q' where "q' = (if D < 0 then quant_min else quant_max)"
  have q': "spec_quantize (spec_affine y (spec_inv_scale (Fin sv)) z) quant_min quant_max = q'"
    by (simp add: t q'_def spec_quantize_def inf_of_def)
  define D' where "D' = q' - z"
  define d' :: rat where "d' = of_int D'"
  have rel: "(D < 0 \<and> D' \<le> D) \<or> (0 < D \<and> D \<le> D')"
    using D0 assms(2,3) by (auto simp: D_def D'_def q'_def)
  then have D'0: "D' \<noteq> 0" by auto
  have dd: "(d < 0 \<and> d' \<le> d) \<or> (0 < d \<and> d \<le> d')"
    using rel by (simp add: d_def d'_def)
  then have ab: "\<bar>d\<bar> \<le> \<bar>d'\<bar>" "(d' < 0) = (d < 0)" by auto
  have "\<bar>d\<bar> * \<bar>sv\<bar> \<le> \<bar>d'\<bar> * \<bar>sv\<bar>" using ab(1) by (intro mult_right_mono) simp_all
  then have m: "\<bar>d * sv\<bar> \<le> \<bar>d' * sv\<bar>" by (simp add: abs_mult)
  have sgn: "(d' * sv < 0) = (d * sv < 0)"
    using ab(2) dd s(1) by (auto simp: mult_less_0_iff)
  have "to_float (round64 (d' * sv)) = to_float (round64 (d * sv))"
    by (rule to_float_round64_inf_mono [OF inf m sgn])
  moreover have "spec_dequantize D' (Fin sv) = to_float (round64 (d' * sv))"
    unfolding d'_def by (rule spec_dequantize_Fin [OF D'0 s(1)])
  ultimately have "spec_dequantize D' (Fin sv) = spec_dequantize D (Fin sv)"
    by (simp only: Y)
  then show ?thesis by (simp only: q' D'_def D_def)
qed

lemma zero_inverse_affine:
  assumes "\<bar>z\<bar> \<le> 2 ^ 24" "is_zero i"
  shows "spec_affine x i z = (if is_nan x \<or> is_inf x then NaN else Fin (of_int z))"
proof -
  have i: "\<not> is_nan i" "\<not> is_inf i" "fval i = 0"
    using assms(2) by (simp_all add: is_zero_not_special)
  have "round32 (of_int z) = Fin (of_int z)" by (rule round32_exact_int_le [OF assms(1)])
  then show ?thesis using i assms(2) by (simp add: spec_affine_def)
qed

lemma zero_inverse_idempotent:
  assumes "2 powi (- 127) \<le> \<bar>sv\<bar>" "quant_min \<le> quant_max" "\<bar>z\<bar> \<le> 2 ^ 24"
    and "is_zero (spec_inv_scale (Fin sv))"
    and "same_value y (spec_forward (Fin sv) z quant_min quant_max x)"
  shows "spec_forward (Fin sv) z quant_min quant_max y
         = spec_forward (Fin sv) z quant_min quant_max x"
proof -
  note s = scale_facts [OF assms(1)]
  define Q where "Q = (\<lambda>x. spec_quantize (spec_affine x (spec_inv_scale (Fin sv)) z)
    quant_min quant_max)"
  have zr: "spec_round (of_int z) = z" by (rule spec_round_near) simp
  have Q: "Q x = (if is_nan x \<or> is_inf x then quant_min else spec_clamp z quant_min quant_max)"
    for x
    by (simp add: Q_def zero_inverse_affine [OF assms(3,4)] spec_quantize_def zr)
  have "\<bar>1 / sv\<bar> < 2 powi (- 149)"
    using assms(4) unfolding spec_inv_scale_Fin [OF s(1)] by (rule to_float_round64_zero)
  then have "1 < 2 powi (- 149) * \<bar>sv\<bar>" using s(1) by (simp add: field_simps)
  moreover have "(2::rat) powi (- 149) * 2 powi 149 = 2 powi (- 149 + 149)"
    by (rule two_powi_split [symmetric])
  ultimately have "2 powi (- 149) * 2 powi 149 < 2 powi (- 149) * \<bar>sv\<bar>" by simp
  then have big: "2 powi 149 < \<bar>sv\<bar>" by (simp only: mult_less_cancel_left_pos two_powi_pos)
  have ovf: "spec_dequantize D (Fin sv) = inf_of (of_int D * sv < 0)" if "D \<noteq> 0" for D
  proof -
    have "1 \<le> \<bar>rat_of_int D\<bar>" using that
      by (metis of_int_abs of_int_1_le_iff zero_less_abs_iff int_one_le_iff_zero_less)
    then have "1 * \<bar>sv\<bar> \<le> \<bar>rat_of_int D\<bar> * \<bar>sv\<bar>" by (intro mult_right_mono) simp_all
    moreover have "(2::rat) powi 128 \<le> 2 powi 149" by (intro power_int_increasing) simp_all
    ultimately have "2 powi 128 \<le> \<bar>rat_of_int D * sv\<bar>" using big by (simp add: abs_mult)
    from to_float_round64_overflow [OF this] show ?thesis
      by (simp only: spec_dequantize_Fin [OF that s(1)])
  qed
  have y: "same_value y (spec_dequantize (Q x - z) (Fin sv))"
    using assms(5) by (simp only: spec_forward_def Q_def)
  have ny: "\<not> is_nan y" and iy: "is_inf y \<longleftrightarrow> Q x \<noteq> z"
  proof -
    show "\<not> is_nan y"
      using same_value_props(1) [OF y] ovf [of "Q x - z"]
      by (cases "Q x - z = 0") (simp_all add: spec_dequantize_def)
    show "is_inf y \<longleftrightarrow> Q x \<noteq> z"
      using same_value_props(2) [OF y] ovf [of "Q x - z"]
      by (cases "Q x - z = 0") (simp_all add: spec_dequantize_def)
  qed
  have Qy: "Q y = (if Q x \<noteq> z then quant_min else spec_clamp z quant_min quant_max)"
    by (simp add: Q [of y] ny iy)
  have "spec_dequantize (Q y - z) (Fin sv) = spec_dequantize (Q x - z) (Fin sv)"
  proof (cases "Q y = Q x")
    case True
    then show ?thesis by simp
  next
    case False
    then have c: "Q x = quant_max" "Q y = quant_min" "quant_max < z"
      using assms(2) by (auto simp: Q [of x] Qy spec_clamp_def min_def max_def split: if_splits)
    then have n: "Q x - z \<noteq> 0" "Q y - z \<noteq> 0" "Q x - z < 0" "Q y - z < 0"
      using assms(2) by simp_all
    have "(rat_of_int (Q x - z) * sv < 0) = (rat_of_int (Q y - z) * sv < 0)"
      using n(3,4) s(1) by (auto simp: mult_less_0_iff)
    then show ?thesis by (simp only: ovf [OF n(1)] ovf [OF n(2)])
  qed
  then show ?thesis by (simp only: spec_forward_def Q_def)
qed

lemma spec_forward_idempotent:
  assumes "2 powi (- 127) \<le> \<bar>sv\<bar>"
    and "quant_min \<le> quant_max" "0 \<le> z"
    and "quant_max < 2 ^ 22" "z - quant_min < 2 ^ 22"
    and "same_value y (spec_forward (Fin sv) z quant_min quant_max x)"
  shows "spec_forward (Fin sv) z quant_min quant_max y
         = spec_forward (Fin sv) z quant_min quant_max x"
proof (cases "is_zero (spec_inv_scale (Fin sv))")
  case True
  have "\<bar>z\<bar> \<le> 2 ^ 24" using assms(2-5) by simp
  from zero_inverse_idempotent [OF assms(1,2) this True assms(6)] show ?thesis .
next
  case False
  define q where "q = spec_quantize (spec_affine x (spec_inv_scale (Fin sv)) z)
    quant_min quant_max"
  have r: "quant_min \<le> q" "q \<le> quant_max"
    unfolding q_def by (rule spec_quantize_range [OF assms(2)])+
  have y: "same_value y (spec_dequantize (q - z) (Fin sv))"
    using assms(6) by (simp only: spec_forward_def q_def)
  show ?thesis
  proof (cases "is_inf (spec_dequantize (q - z) (Fin sv))")
    case True
    from requantize_overflow [OF assms(1) r y True False] show ?thesis
      by (simp only: spec_forward_def q_def)
  next
    case False
    from requantize_level [OF assms(1) r assms(3,4,5) y False] show ?thesis
      by (simp only: spec_forward_def q_def)
  qed
qed

lemma forward_value_idempotent:
  assumes "2 powi (- 127) \<le> \<bar>sv\<bar>"
    and "sint quant_min \<le> sint quant_max" "0 \<le> sint zero_point"
    and "sint quant_max < 2 ^ 22" "sint zero_point - sint quant_min < 2 ^ 22"
  shows "same_value
    (forward_op (Fin sv) zero_point quant_min quant_max (inv_scale_of (Fin sv))
       (forward_op (Fin sv) zero_point quant_min quant_max (inv_scale_of (Fin sv)) x r) r')
    (forward_op (Fin sv) zero_point quant_min quant_max (inv_scale_of (Fin sv)) x r)"
proof -
  define y where "y = forward_op (Fin sv) zero_point quant_min quant_max (inv_scale_of (Fin sv)) x r"
  have b: "sint quant_max \<le> 2 ^ 24" "sint zero_point \<le> 2 ^ 24"
    "sint zero_point - sint quant_min \<le> 2 ^ 24"
    using assms(2-5) by simp_all
  have y: "same_value y
      (spec_forward (Fin sv) (sint zero_point) (sint quant_min) (sint quant_max) x)"
    unfolding y_def by (rule forward_op_spec [OF assms(2,3) b])
  have "same_value
      (forward_op (Fin sv) zero_point quant_min quant_max (inv_scale_of (Fin sv)) y r')
      (spec_forward (Fin sv) (sint zero_point) (sint quant_min) (sint quant_max) y)"
    by (rule forward_op_spec [OF assms(2,3) b])
  also have "spec_forward (Fin sv) (sint zero_point) (sint quant_min) (sint quant_max) y
      = spec_forward (Fin sv) (sint zero_point) (sint quant_min) (sint quant_max) x"
    by (rule spec_forward_idempotent [OF assms(1,2,3,4,5) y])
  finally show ?thesis
    using y unfolding y_def [symmetric] by (blast intro: same_value_trans same_value_sym)
qed

section \<open>What the two functions return\<close>

lemma empty_like_eq:
  "empty_like h a = (length h, h @ [(h ! a)\<lparr>elems := replicate (numel (h ! a)) uninitialized\<rparr>])"
  by (simp add: empty_like_def alloc_def)

lemma zeros_like_eq:
  "zeros_like h a = (length h, h @ [(h ! a)\<lparr>elems := replicate (numel (h ! a)) (Fin 0)\<rparr>])"
  by (simp add: zeros_like_def alloc_def)

lemma map2_replicate:
  "length xs = n \<Longrightarrow> map2 f xs (replicate n u) = map (\<lambda>x. f x u) xs"
  by (induction xs arbitrary: n) auto

lemma forward_warm_up_eq:
  assumes "self < length h" "is_cuda (h ! self)" "scalar_type (h ! self) = Float"
    and "validator zero_point quant_min quant_max quant_delay iter"
    and "warm_up quant_delay iter"
  shows "fake_quantize_per_tensor_affine_cuda h self scale zero_point quant_min quant_max
           quant_delay iter = Inr (length h, h @ [h ! self])"
  using assms
  by (auto simp: fake_quantize_per_tensor_affine_cuda_def validator_def warm_up_def
      empty_like_eq copy_inplace_def nth_append)

lemma backward_empty_eq:
  assumes "is_cuda (h ! X)" "scalar_type (h ! X) = Float"
    and "sint quant_min \<le> sint quant_max" "0 \<le> sint zero_point" "0 \<le> sint quant_delay"
    and "numel (h ! X) = 0"
  shows "fake_quantize_per_tensor_affine_backward_cuda h dY X scale zero_point quant_min
           quant_max quant_delay iter = Inr (X, h)"
  using assms by (simp add: fake_quantize_per_tensor_affine_backward_cuda_def)

lemma backward_mismatch_eq:
  assumes "is_cuda (h ! X)" "scalar_type (h ! X) = Float"
    and "sint quant_min \<le> sint quant_max" "0 \<le> sint zero_point" "0 \<le> sint quant_delay"
    and "0 < numel (h ! X)" "numel (h ! X) \<noteq> numel (h ! dY)"
  shows "fake_quantize_per_tensor_affine_backward_cuda h dY X scale zero_point quant_min
           quant_max quant_delay iter = Inl ShapeMismatch"
  using assms by (simp add: fake_quantize_per_tensor_affine_backward_cuda_def)

lemma backward_warm_up_eq:
  assumes "dY < length h" "is_cuda (h ! X)" "scalar_type (h ! X) = Float"
    and "validator zero_point quant_min quant_max quant_delay iter"
    and "0 < numel (h ! X)" "numel (h ! X) = numel (h ! dY)"
    and "warm_up quant_delay iter"
  shows "fake_quantize_per_tensor_affine_backward_cuda h dY X scale zero_point quant_min
           quant_max quant_delay iter = Inr (length h, h @ [h ! dY])"
  using assms
  by (auto simp: fake_quantize_per_tensor_affine_backward_cuda_def validator_def warm_up_def
      zeros_like_eq copy_inplace_def nth_append)

lemma forward_kernel_eq:
  assumes "valid h self" "is_cuda (h ! self)" "scalar_type (h ! self) = Float"
    and "validator zero_point quant_min quant_max quant_delay iter"
    and "\<not> warm_up quant_delay iter"
  shows "fake_quantize_per_tensor_affine_cuda h self scale zero_point quant_min quant_max
           quant_delay iter =
         Inr (length h, h @ [(h ! self)\<lparr>elems :=
           map (\<lambda>x. forward_op scale zero_point quant_min quant_max (inv_scale_of scale) x
                      uninitialized)
             (elems (h ! self))\<rparr>])"
  using assms
  by (auto simp: fake_quantize_per_tensor_affine_cuda_def validator_def warm_up_def
      empty_like_eq CUDA_tensor_apply2_def nth_append valid_def wf_tensor_def numel_def
      map2_replicate inv_scale_of_def)

lemma backward_kernel_eq:
  assumes "valid h X" "dY < length h"
    and "is_cuda (h ! X)" "scalar_type (h ! X) = Float"
    and "is_cuda (h ! dY)" "scalar_type (h ! dY) = Float"
    and "validator zero_point quant_min quant_max quant_delay iter"
    and "0 < numel (h ! X)" "numel (h ! X) = numel (h ! dY)"
    and "\<not> warm_up quant_delay iter"
  shows "fake_quantize_per_tensor_affine_backward_cuda h dY X scale zero_point quant_min
           quant_max quant_delay iter =
         Inr (length h + 2,
           h @ [(h ! dY)\<lparr>elems := replicate (numel (h ! dY)) (Fin 0)\<rparr>,
                (h ! dY)\<lparr>elems :=
                  map (\<lambda>x. backward_op zero_point quant_min quant_max (inv_scale_of scale) x
                             uninitialized)
                    (elems (h ! X))\<rparr>,
                (h ! dY)\<lparr>elems :=
                  map2 fmul32
                    (map (\<lambda>x. backward_op zero_point quant_min quant_max (inv_scale_of scale) x
                               uninitialized)
                       (elems (h ! X)))
                    (elems (h ! dY))\<rparr>])"
  using assms
  by (auto simp: fake_quantize_per_tensor_affine_backward_cuda_def validator_def warm_up_def
      zeros_like_eq empty_like_eq CUDA_tensor_apply2_def nth_append valid_def wf_tensor_def
      numel_def map2_replicate inv_scale_of_def mul_def alloc_def Let_def list_update_append)

section \<open>The claims\<close>

text \<open>
  C1 (as amended).  When validation passes and the warm-up passthrough does not apply
  (\<open>quant_delay = 0\<close> or \<open>iter > quant_delay\<close>), and \<open>quant_max \<le> 2 ^ 24\<close>,
  \<open>zero_point \<le> 2 ^ 24\<close> and \<open>zero_point - quant_min \<le> 2 ^ 24\<close> (so that a float holds
  \<open>quant_min\<close>, \<open>quant_max\<close>, \<open>zero_point\<close> and every difference \<open>q - zero_point\<close>
  exactly), the forward transform returns an array that holds, at the position of every
  input element \<open>x\<close>, the number
  \<open>(clamp(round(x * (1/scale) + zero_point), quant_min, quant_max) - zero_point) * scale\<close>:
  \<open>1/scale\<close> is the one float \<open>spec_inv_scale scale\<close>, the sum is rounded once to float,
  \<open>round\<close> is to the nearest integer with halves away from zero, \<open>clamp\<close> and the
  difference are exact on integers, and the product is rounded to double and to float.
  Where the sum is a NaN or \<open>-\<infinity>\<close> the level \<open>q\<close> is \<open>quant_min\<close>, and where it is \<open>+\<infinity>\<close>
  it is \<open>quant_max\<close>.
\<close>

theorem forward_output_formula:
  assumes "valid h self" "is_cuda (h ! self)" "scalar_type (h ! self) = Float"
    and "validator zero_point quant_min quant_max quant_delay iter"
    and "quant_delay = 0 \<or> sint quant_delay < sint iter"
    and "sint quant_max \<le> 2 ^ 24" "sint zero_point \<le> 2 ^ 24"
    and "sint zero_point - sint quant_min \<le> 2 ^ 24"
  shows "\<exists>out. result_elems (fake_quantize_per_tensor_affine_cuda h self scale zero_point
             quant_min quant_max quant_delay iter) = Some out
           \<and> list_all2 same_value out
               (map (spec_forward scale (sint zero_point) (sint quant_min) (sint quant_max))
                  (elems (h ! self)))"
proof -
  have w: "\<not> warm_up quant_delay iter"
    using assms(4,5) by (auto simp: validator_def warm_up_def)
  have r: "sint quant_min \<le> sint quant_max" "0 \<le> sint zero_point"
    using assms(4) by (simp_all add: validator_def)
  have "same_value
      (forward_op scale zero_point quant_min quant_max (inv_scale_of scale) x uninitialized)
      (spec_forward scale (sint zero_point) (sint quant_min) (sint quant_max) x)" for x
    by (rule forward_op_spec [OF r assms(6-8)])
  then have "list_all2 same_value
      (map (\<lambda>x. forward_op scale zero_point quant_min quant_max (inv_scale_of scale) x
                 uninitialized) (elems (h ! self)))
      (map (spec_forward scale (sint zero_point) (sint quant_min) (sint quant_max))
         (elems (h ! self)))"
    by (simp add: list_all2_conv_all_nth)
  then show ?thesis
    using forward_kernel_eq [OF assms(1-4) w, of scale] by (simp add: result_elems_def)
qed

text \<open>
  An instance with \<open>scale\<close> the double nearest to 0.1, \<open>zero_point = 128\<close> and the range
  \<open>[0, 255]\<close>: the float nearest to \<open>- 12.05\<close> goes to the float nearest to \<open>- 12.1\<close> (the sum
  \<open>7.4999981\<close> is rounded once and gives the level 7), and a NaN goes to the level of
  \<open>quant_min\<close>, the float nearest to \<open>- 12.8\<close>.
\<close>

theorem forward_output_formula_witness:
  "valid [\<lparr>is_cuda = True, scalar_type = Float, sizes = [2],
            elems = [Fin (- 12635341 / 1048576), NaN]\<rparr>] 0
   \<and> validator 128 0 255 0 0
   \<and> sint (255 :: int64_t) \<le> 2 ^ 24 \<and> sint (128 :: int64_t) \<le> 2 ^ 24
   \<and> sint (128 :: int64_t) - sint (0 :: int64_t) \<le> 2 ^ 24
   \<and> (\<exists>out. result_elems (fake_quantize_per_tensor_affine_cuda
         [\<lparr>is_cuda = True, scalar_type = Float, sizes = [2],
            elems = [Fin (- 12635341 / 1048576), NaN]\<rparr>]
         0 (Fin (3602879701896397 / 36028797018963968)) 128 0 255 0 0) = Some out
       \<and> list_all2 same_value out [Fin (- 6343885 / 524288), Fin (- 13421773 / 1048576)])"
proof -
  let ?h = "[\<lparr>is_cuda = True, scalar_type = Float, sizes = [2],
            elems = [Fin (- 12635341 / 1048576), NaN]\<rparr>]"
  let ?s = "Fin (3602879701896397 / 36028797018963968)"
  have v: "valid ?h 0"
    by (simp add: valid_def wf_tensor_def numel_def)
  have p: "validator 128 0 255 0 0"
    by (simp add: validator_def)
  have b: "sint (255 :: int64_t) \<le> 2 ^ 24" "sint (128 :: int64_t) \<le> 2 ^ 24"
    "sint (128 :: int64_t) - sint (0 :: int64_t) \<le> 2 ^ 24"
    by simp_all
  have e1: "spec_forward ?s 128 0 255 (Fin (- 12635341 / 1048576)) = Fin (- 6343885 / 524288)"
    by code_simp
  have e2: "spec_forward ?s 128 0 255 NaN = Fin (- 13421773 / 1048576)"
    by code_simp
  from forward_output_formula [OF v _ _ p _ b, of ?s]
  show ?thesis using v p e1 e2 by simp
qed

text \<open>
  C1 as stated fails where a float does not hold the integers: with \<open>scale = 1\<close>,
  \<open>zero_point = 2 ^ 24 + 1\<close> and \<open>quant_min = quant_max = 2 ^ 24 + 7\<close> the formula gives
  \<open>(2 ^ 24 + 7) - (2 ^ 24 + 1) = 6\<close> for every element, and the transform returns 8: the
  float of \<open>quant_max\<close> is \<open>2 ^ 24 + 8\<close> and the float of \<open>zero_point\<close> is \<open>2 ^ 24\<close>.
\<close>

theorem forward_formula_counterexample:
  "validator 16777217 16777223 16777223 0 0
   \<and> result_elems (fake_quantize_per_tensor_affine_cuda
        [\<lparr>is_cuda = True, scalar_type = Float, sizes = [1], elems = [Fin 0]\<rparr>]
        0 (Fin 1) 16777217 16777223 16777223 0 0) = Some [Fin 8]
   \<and> spec_forward (Fin 1) 16777217 16777223 16777223 (Fin 0) = Fin 6
   \<and> \<not> same_value (Fin 8) (Fin 6)"
proof -
  let ?h = "[\<lparr>is_cuda = True, scalar_type = Float, sizes = [1], elems = [Fin 0]\<rparr>]"
  have p: "validator 16777217 16777223 16777223 0 0" "\<not> warm_up 0 0"
    by (simp_all add: validator_def warm_up_def)
  have v: "valid ?h 0"
    by (simp add: valid_def wf_tensor_def numel_def)
  have k: "forward_op (Fin 1) 16777217 16777223 16777223 (inv_scale_of (Fin 1)) (Fin 0)
      uninitialized = Fin 8"
    by code_simp
  have s: "spec_forward (Fin 1) 16777217 16777223 16777223 (Fin 0) = Fin 6"
    by code_simp
  have "result_elems (fake_quantize_per_tensor_affine_cuda ?h 0 (Fin 1) 16777217 16777223
      16777223 0 0) = Some [Fin 8]"
    using forward_kernel_eq [OF v _ _ p, of "Fin 1"] by (simp add: result_elems_def k)
  with p(1) s show ?thesis by (simp add: same_value_def)
qed

text \<open>
  C3.  For \<open>quant_delay > 0\<close> and \<open>0 \<le> iter \<le> quant_delay\<close>, with otherwise valid
  parameters and conformant float arrays on the device, the forward transform returns an
  array with exactly the elements of its input and the backward transform one with exactly
  the elements of \<open>gradOutput\<close>.
\<close>

theorem warm_up_passthrough:
  assumes "valid h self" "is_cuda (h ! self)" "scalar_type (h ! self) = Float"
    and "valid h dY" "numel (h ! self) = numel (h ! dY)"
    and "sint quant_min \<le> sint quant_max" "0 \<le> sint zero_point"
    and "0 < sint quant_delay" "0 \<le> sint iter" "sint iter \<le> sint quant_delay"
  shows "result_elems (fake_quantize_per_tensor_affine_cuda h self scale zero_point quant_min
             quant_max quant_delay iter) = Some (elems (h ! self))
       \<and> result_elems (fake_quantize_per_tensor_affine_backward_cuda h dY self scale zero_point
             quant_min quant_max quant_delay iter) = Some (elems (h ! dY))"
proof -
  have v: "validator zero_point quant_min quant_max quant_delay iter"
    using assms by (simp add: validator_def)
  have w: "warm_up quant_delay iter"
    using assms by (simp add: warm_up_def)
  have s: "self < length h" and d: "dY < length h"
    using assms(1,4) by (simp_all add: valid_def)
  have fwd: "result_elems (fake_quantize_per_tensor_affine_cuda h self scale zero_point
      quant_min quant_max quant_delay iter) = Some (elems (h ! self))"
    using forward_warm_up_eq [OF s assms(2,3) v w] by (simp add: result_elems_def)
  have bwd: "result_elems (fake_quantize_per_tensor_affine_backward_cuda h dY self scale
      zero_point quant_min quant_max quant_delay iter) = Some (elems (h ! dY))"
  proof (cases "numel (h ! self) = 0")
    case True
    then have "elems (h ! self) = []" "elems (h ! dY) = []"
      using assms(1,4,5) by (simp_all add: valid_def wf_tensor_def)
    then show ?thesis
      using backward_empty_eq [OF assms(2,3,6,7) _ True, of quant_delay dY scale iter] assms(8)
      by (simp add: result_elems_def)
  next
    case False
    then show ?thesis
      using backward_warm_up_eq [OF d assms(2,3) v _ assms(5) w]
      by (simp add: result_elems_def)
  qed
  from fwd bwd show ?thesis by blast
qed

theorem warm_up_passthrough_witness:
  "valid [\<lparr>is_cuda = True, scalar_type = Float, sizes = [2], elems = [Fin (7 / 4), NaN]\<rparr>,
          \<lparr>is_cuda = True, scalar_type = Float, sizes = [2], elems = [Fin 1, NZero]\<rparr>] 0
   \<and> valid [\<lparr>is_cuda = True, scalar_type = Float, sizes = [2], elems = [Fin (7 / 4), NaN]\<rparr>,
          \<lparr>is_cuda = True, scalar_type = Float, sizes = [2], elems = [Fin 1, NZero]\<rparr>] 1
   \<and> (0::int) < sint (3 :: int64_t) \<and> sint (2 :: int64_t) \<le> sint (3 :: int64_t)
   \<and> result_elems (fake_quantize_per_tensor_affine_cuda
         [\<lparr>is_cuda = True, scalar_type = Float, sizes = [2], elems = [Fin (7 / 4), NaN]\<rparr>,
          \<lparr>is_cuda = True, scalar_type = Float, sizes = [2], elems = [Fin 1, NZero]\<rparr>]
         0 (Fin (1 / 2)) 10 0 255 3 2) = Some [Fin (7 / 4), NaN]
   \<and> result_elems (fake_quantize_per_tensor_affine_backward_cuda
         [\<lparr>is_cuda = True, scalar_type = Float, sizes = [2], elems = [Fin (7 / 4), NaN]\<rparr>,
          \<lparr>is_cuda = True, scalar_type = Float, sizes = [2], elems = [Fin 1, NZero]\<rparr>]
         1 0 (Fin (1 / 2)) 10 0 255 3 2) = Some [Fin 1, NZero]"
proof -
  let ?h = "[\<lparr>is_cuda = True, scalar_type = Float, sizes = [2], elems = [Fin (7 / 4), NaN]\<rparr>,
          \<lparr>is_cuda = True, scalar_type = Float, sizes = [2], elems = [Fin 1, NZero]\<rparr>]"
  have v0: "valid ?h 0" and v1: "valid ?h 1"
    by (simp_all add: valid_def wf_tensor_def numel_def)
  have n: "numel (?h ! 0) = numel (?h ! 1)"
    by (simp add: numel_def)
  have q: "sint (0 :: int64_t) \<le> sint (255 :: int64_t)" "0 \<le> sint (10 :: int64_t)"
    "0 < sint (3 :: int64_t)" "0 \<le> sint (2 :: int64_t)" "sint (2 :: int64_t) \<le> sint (3 :: int64_t)"
    by simp_all
  from warm_up_passthrough [OF v0 _ _ v1 n q, of "Fin (1 / 2)"]
  show ?thesis using v0 v1 q by simp
qed

text \<open>
  C4 (as amended).  For a float array on the device, both transforms fail with
  \<open>InvalidRange\<close> iff \<open>quant_min > quant_max\<close>, with \<open>InvalidZeroPoint\<close> iff otherwise
  \<open>zero_point < 0\<close>, and with \<open>InvalidDelay\<close> iff otherwise \<open>quant_delay < 0\<close>.  The forward
  transform fails with \<open>InvalidIter\<close> iff otherwise \<open>quant_delay \<noteq> 0\<close> and \<open>iter < 0\<close>; the
  backward transform does so iff, in addition, its input has at least one element and as
  many elements as \<open>gradOutput\<close>, because its check of \<open>iter\<close> comes after the zero-element
  shortcut and the comparison of the element counts.  When the validator passes, the
  forward transform returns an array and the backward transform raises none of the four
  errors.
\<close>

theorem validation_errors:
  assumes "self < length h" "is_cuda (h ! self)" "scalar_type (h ! self) = Float"
  shows "(fake_quantize_per_tensor_affine_cuda h self scale zero_point quant_min quant_max
            quant_delay iter = Inl InvalidRange \<longleftrightarrow> sint quant_max < sint quant_min)
       \<and> (fake_quantize_per_tensor_affine_cuda h self scale zero_point quant_min quant_max
            quant_delay iter = Inl InvalidZeroPoint \<longleftrightarrow>
            sint quant_min \<le> sint quant_max \<and> sint zero_point < 0)
       \<and> (fake_quantize_per_tensor_affine_cuda h self scale zero_point quant_min quant_max
            quant_delay iter = Inl InvalidDelay \<longleftrightarrow>
            sint quant_min \<le> sint quant_max \<and> 0 \<le> sint zero_point \<and> sint quant_delay < 0)
       \<and> (fake_quantize_per_tensor_affine_cuda h self scale zero_point quant_min quant_max
            quant_delay iter = Inl InvalidIter \<longleftrightarrow>
            sint quant_min \<le> sint quant_max \<and> 0 \<le> sint zero_point \<and> 0 \<le> sint quant_delay
            \<and> quant_delay \<noteq> 0 \<and> sint iter < 0)
       \<and> (validator zero_point quant_min quant_max quant_delay iter \<longrightarrow>
            (\<exists>Y h'. fake_quantize_per_tensor_affine_cuda h self scale zero_point quant_min
               quant_max quant_delay iter = Inr (Y, h')))
       \<and> (fake_quantize_per_tensor_affine_backward_cuda h dY self scale zero_point quant_min
            quant_max quant_delay iter = Inl InvalidRange \<longleftrightarrow> sint quant_max < sint quant_min)
       \<and> (fake_quantize_per_tensor_affine_backward_cuda h dY self scale zero_point quant_min
            quant_max quant_delay iter = Inl InvalidZeroPoint \<longleftrightarrow>
            sint quant_min \<le> sint quant_max \<and> sint zero_point < 0)
       \<and> (fake_quantize_per_tensor_affine_backward_cuda h dY self scale zero_point quant_min
            quant_max quant_delay iter = Inl InvalidDelay \<longleftrightarrow>
            sint quant_min \<le> sint quant_max \<and> 0 \<le> sint zero_point \<and> sint quant_delay < 0)
       \<and> (fake_quantize_per_tensor_affine_backward_cuda h dY self scale zero_point quant_min
            quant_max quant_delay iter = Inl InvalidIter \<longleftrightarrow>
            sint quant_min \<le> sint quant_max \<and> 0 \<le> sint zero_point \<and> 0 \<le> sint quant_delay
            \<and> 0 < numel (h ! self) \<and> numel (h ! self) = numel (h ! dY)
            \<and> quant_delay \<noteq> 0 \<and> sint iter < 0)
       \<and> (validator zero_point quant_min quant_max quant_delay iter \<longrightarrow>
            fake_quantize_per_tensor_affine_backward_cuda h dY self scale zero_point quant_min
              quant_max quant_delay iter
            \<notin> {Inl InvalidRange, Inl InvalidZeroPoint, Inl InvalidDelay, Inl InvalidIter})"
proof -
  let ?fwd = "fake_quantize_per_tensor_affine_cuda h self scale zero_point quant_min quant_max
            quant_delay iter"
  let ?bwd = "fake_quantize_per_tensor_affine_backward_cuda h dY self scale zero_point quant_min
            quant_max quant_delay iter"
  have pass: "\<exists>Y h'. ?fwd = Inr (Y, h')"
    if "validator zero_point quant_min quant_max quant_delay iter"
    using that assms
    by (auto simp: fake_quantize_per_tensor_affine_cuda_def validator_def empty_like_eq
        CUDA_tensor_apply2_def nth_append numel_def)
  have f: "(?fwd = Inl InvalidRange \<longleftrightarrow> sint quant_max < sint quant_min)
       \<and> (?fwd = Inl InvalidZeroPoint \<longleftrightarrow> sint quant_min \<le> sint quant_max \<and> sint zero_point < 0)
       \<and> (?fwd = Inl InvalidDelay \<longleftrightarrow>
            sint quant_min \<le> sint quant_max \<and> 0 \<le> sint zero_point \<and> sint quant_delay < 0)
       \<and> (?fwd = Inl InvalidIter \<longleftrightarrow>
            sint quant_min \<le> sint quant_max \<and> 0 \<le> sint zero_point \<and> 0 \<le> sint quant_delay
            \<and> quant_delay \<noteq> 0 \<and> sint iter < 0)"
  proof (cases "validator zero_point quant_min quant_max quant_delay iter")
    case True
    with pass obtain Y h' where "?fwd = Inr (Y, h')" by blast
    with True show ?thesis by (auto simp: validator_def)
  next
    case False
    then show ?thesis using assms
      by (auto simp: fake_quantize_per_tensor_affine_cuda_def validator_def)
  qed
  have b: "(?bwd = Inl InvalidRange \<longleftrightarrow> sint quant_max < sint quant_min)
       \<and> (?bwd = Inl InvalidZeroPoint \<longleftrightarrow> sint quant_min \<le> sint quant_max \<and> sint zero_point < 0)
       \<and> (?bwd = Inl InvalidDelay \<longleftrightarrow>
            sint quant_min \<le> sint quant_max \<and> 0 \<le> sint zero_point \<and> sint quant_delay < 0)
       \<and> (?bwd = Inl InvalidIter \<longleftrightarrow>
            sint quant_min \<le> sint quant_max \<and> 0 \<le> sint zero_point \<and> 0 \<le> sint quant_delay
            \<and> 0 < numel (h ! self) \<and> numel (h ! self) = numel (h ! dY)
            \<and> quant_delay \<noteq> 0 \<and> sint iter < 0)"
    using assms
    by (auto simp: fake_quantize_per_tensor_affine_backward_cuda_def zeros_like_eq empty_like_eq
        CUDA_tensor_apply2_def mul_def alloc_def Let_def split: if_splits sum.splits)
  have bp: "?bwd \<notin> {Inl InvalidRange, Inl InvalidZeroPoint, Inl InvalidDelay, Inl InvalidIter}"
    if "validator zero_point quant_min quant_max quant_delay iter"
    using that b by (auto simp: validator_def)
  from f b pass bp show ?thesis by blast
qed

theorem validation_errors_witness:
  "(0::nat) < length [\<lparr>is_cuda = True, scalar_type = Float, sizes = [1], elems = [Fin 1]\<rparr>]
   \<and> fake_quantize_per_tensor_affine_cuda
        [\<lparr>is_cuda = True, scalar_type = Float, sizes = [1], elems = [Fin 1]\<rparr>]
        0 (Fin 1) 0 0 255 3 (- 1) = Inl InvalidIter
   \<and> fake_quantize_per_tensor_affine_backward_cuda
        [\<lparr>is_cuda = True, scalar_type = Float, sizes = [1], elems = [Fin 1]\<rparr>]
        0 0 (Fin 1) 0 0 255 3 (- 1) = Inl InvalidIter
   \<and> fake_quantize_per_tensor_affine_backward_cuda
        [\<lparr>is_cuda = True, scalar_type = Float, sizes = [1], elems = [Fin 1]\<rparr>]
        0 0 (Fin 1) 0 5 2 0 0 = Inl InvalidRange"
proof -
  let ?h = "[\<lparr>is_cuda = True, scalar_type = Float, sizes = [1], elems = [Fin 1]\<rparr>]"
  have l: "0 < length ?h" by simp
  have c: "is_cuda (?h ! 0)" "scalar_type (?h ! 0) = Float" by simp_all
  show ?thesis
    using validation_errors [OF l c, of "Fin 1" 0 0 255 3 "- 1" 0]
      validation_errors [OF l c, of "Fin 1" 0 5 2 0 0 0]
    by (simp add: numel_def)
qed

text \<open>
  C4 as stated fails on the backward transform: with a zero-element input,
  \<open>quant_delay = 3\<close> and \<open>iter = - 1\<close> it returns its input and raises no \<open>InvalidIter\<close>.
\<close>

theorem backward_invalid_iter_counterexample:
  "(3 :: int64_t) \<noteq> 0 \<and> sint (- 1 :: int64_t) < 0
   \<and> fake_quantize_per_tensor_affine_backward_cuda
        [\<lparr>is_cuda = True, scalar_type = Float, sizes = [0], elems = []\<rparr>]
        0 0 (Fin 1) 0 0 255 3 (- 1)
      = Inr (0, [\<lparr>is_cuda = True, scalar_type = Float, sizes = [0], elems = []\<rparr>])"
  by (simp add: fake_quantize_per_tensor_affine_backward_cuda_def numel_def)

text \<open>
  C5 (as amended).  When the validator passes, the input of the backward transform has at
  least one element, and \<open>input\<close> and \<open>gradOutput\<close> have unequal element counts, the call
  fails with \<open>ShapeMismatch\<close> and so returns no gradient array.
\<close>

theorem backward_shape_mismatch:
  assumes "is_cuda (h ! X)" "scalar_type (h ! X) = Float"
    and "validator zero_point quant_min quant_max quant_delay iter"
    and "numel (h ! X) \<noteq> numel (h ! dY)" "0 < numel (h ! X)"
  shows "fake_quantize_per_tensor_affine_backward_cuda h dY X scale zero_point quant_min
           quant_max quant_delay iter = Inl ShapeMismatch"
  using assms backward_mismatch_eq [of h X quant_min quant_max zero_point quant_delay dY]
  by (simp add: validator_def)

theorem backward_shape_mismatch_witness:
  "validator 10 0 255 0 0
   \<and> numel ([\<lparr>is_cuda = True, scalar_type = Float, sizes = [2], elems = [Fin 1, Fin 2]\<rparr>,
             \<lparr>is_cuda = True, scalar_type = Float, sizes = [3], elems = [Fin 1, Fin 1, Fin 1]\<rparr>] ! 0)
     \<noteq> numel ([\<lparr>is_cuda = True, scalar_type = Float, sizes = [2], elems = [Fin 1, Fin 2]\<rparr>,
             \<lparr>is_cuda = True, scalar_type = Float, sizes = [3], elems = [Fin 1, Fin 1, Fin 1]\<rparr>] ! 1)
   \<and> fake_quantize_per_tensor_affine_backward_cuda
        [\<lparr>is_cuda = True, scalar_type = Float, sizes = [2], elems = [Fin 1, Fin 2]\<rparr>,
         \<lparr>is_cuda = True, scalar_type = Float, sizes = [3], elems = [Fin 1, Fin 1, Fin 1]\<rparr>]
        1 0 (Fin (1 / 2)) 10 0 255 0 0 = Inl ShapeMismatch"
proof -
  let ?h = "[\<lparr>is_cuda = True, scalar_type = Float, sizes = [2], elems = [Fin 1, Fin 2]\<rparr>,
         \<lparr>is_cuda = True, scalar_type = Float, sizes = [3], elems = [Fin 1, Fin 1, Fin 1]\<rparr>]"
  have v: "validator 10 0 255 0 0" by (simp add: validator_def)
  have n: "numel (?h ! 0) \<noteq> numel (?h ! 1)" "0 < numel (?h ! 0)" by (simp_all add: numel_def)
  show ?thesis
    using backward_shape_mismatch [OF _ _ v n, of "Fin (1 / 2)"] v n by simp
qed

text \<open>
  C5 as stated fails when the input has no element: with unequal element counts and a
  passing validator the call returns its input instead of failing.
\<close>

theorem backward_shape_mismatch_counterexample:
  "validator 10 0 255 0 0
   \<and> numel ([\<lparr>is_cuda = True, scalar_type = Float, sizes = [0], elems = []\<rparr>,
             \<lparr>is_cuda = True, scalar_type = Float, sizes = [1], elems = [Fin 1]\<rparr>] ! 0)
     \<noteq> numel ([\<lparr>is_cuda = True, scalar_type = Float, sizes = [0], elems = []\<rparr>,
             \<lparr>is_cuda = True, scalar_type = Float, sizes = [1], elems = [Fin 1]\<rparr>] ! 1)
   \<and> fake_quantize_per_tensor_affine_backward_cuda
        [\<lparr>is_cuda = True, scalar_type = Float, sizes = [0], elems = []\<rparr>,
         \<lparr>is_cuda = True, scalar_type = Float, sizes = [1], elems = [Fin 1]\<rparr>]
        1 0 (Fin (1 / 2)) 10 0 255 0 0
      \<noteq> Inl ShapeMismatch"
  by (simp add: fake_quantize_per_tensor_affine_backward_cuda_def numel_def validator_def)

text \<open>
  C8 (as amended).  A call of either transform that returns normally leaves every array
  allocated before the call, the inputs among them, unchanged.  The forward transform
  returns a newly allocated array, distinct from its input, of the input's shape, element
  type and device.  The backward transform returns a newly allocated array, distinct from
  both inputs, of the shape of \<open>gradOutput\<close> and the element count of \<open>input\<close> when \<open>input\<close>
  has at least one element; when \<open>input\<close> has zero elements it returns \<open>input\<close> itself.
\<close>

theorem outputs_are_fresh:
  assumes "self < length h" "dY < length h"
  shows "(fake_quantize_per_tensor_affine_cuda h self scale zero_point quant_min quant_max
            quant_delay iter = Inr (Y, h') \<longrightarrow>
            take (length h) h' = h \<and> length h \<le> Y \<and> Y < length h' \<and> Y \<noteq> self
            \<and> sizes (h' ! Y) = sizes (h ! self)
            \<and> scalar_type (h' ! Y) = scalar_type (h ! self)
            \<and> is_cuda (h' ! Y) = is_cuda (h ! self))
       \<and> (fake_quantize_per_tensor_affine_backward_cuda h dY self scale zero_point quant_min
            quant_max quant_delay iter = Inr (dX, h'') \<longrightarrow>
            take (length h) h'' = h
            \<and> (if numel (h ! self) = 0 then dX = self
                else length h \<le> dX \<and> dX < length h'' \<and> dX \<noteq> self \<and> dX \<noteq> dY
                  \<and> sizes (h'' ! dX) = sizes (h ! dY)
                  \<and> numel (h'' ! dX) = numel (h ! self)
                  \<and> scalar_type (h'' ! dX) = scalar_type (h ! dY)
                  \<and> is_cuda (h'' ! dX) = is_cuda (h ! dY)))"
proof -
  have f: "take (length h) h' = h \<and> length h \<le> Y \<and> Y < length h' \<and> Y \<noteq> self
            \<and> sizes (h' ! Y) = sizes (h ! self)
            \<and> scalar_type (h' ! Y) = scalar_type (h ! self)
            \<and> is_cuda (h' ! Y) = is_cuda (h ! self)"
    if "fake_quantize_per_tensor_affine_cuda h self scale zero_point quant_min quant_max
            quant_delay iter = Inr (Y, h')"
    using that assms
    by (auto simp: fake_quantize_per_tensor_affine_cuda_def empty_like_eq copy_inplace_def
        CUDA_tensor_apply2_def nth_append Let_def split: if_splits)
  have b: "take (length h) h'' = h
            \<and> (if numel (h ! self) = 0 then dX = self
                else length h \<le> dX \<and> dX < length h'' \<and> dX \<noteq> self \<and> dX \<noteq> dY
                  \<and> sizes (h'' ! dX) = sizes (h ! dY)
                  \<and> numel (h'' ! dX) = numel (h ! self)
                  \<and> scalar_type (h'' ! dX) = scalar_type (h ! dY)
                  \<and> is_cuda (h'' ! dX) = is_cuda (h ! dY))"
    if "fake_quantize_per_tensor_affine_backward_cuda h dY self scale zero_point quant_min
            quant_max quant_delay iter = Inr (dX, h'')"
    using that assms
    by (auto simp: fake_quantize_per_tensor_affine_backward_cuda_def empty_like_eq zeros_like_eq
        copy_inplace_def CUDA_tensor_apply2_def nth_append Let_def mul_def alloc_def numel_def
        list_update_append split: if_splits)
  from f b show ?thesis by blast
qed

theorem outputs_are_fresh_witness:
  "fake_quantize_per_tensor_affine_cuda
        [\<lparr>is_cuda = True, scalar_type = Float, sizes = [1], elems = [Fin 3]\<rparr>,
         \<lparr>is_cuda = True, scalar_type = Float, sizes = [1], elems = [Fin 1]\<rparr>]
        0 (Fin 1) 0 0 255 2 1
     = Inr (2, [\<lparr>is_cuda = True, scalar_type = Float, sizes = [1], elems = [Fin 3]\<rparr>,
         \<lparr>is_cuda = True, scalar_type = Float, sizes = [1], elems = [Fin 1]\<rparr>,
         \<lparr>is_cuda = True, scalar_type = Float, sizes = [1], elems = [Fin 3]\<rparr>])
   \<and> fake_quantize_per_tensor_affine_backward_cuda
        [\<lparr>is_cuda = True, scalar_type = Float, sizes = [1], elems = [Fin 3]\<rparr>,
         \<lparr>is_cuda = True, scalar_type = Float, sizes = [1], elems = [Fin 1]\<rparr>]
        1 0 (Fin 1) 0 0 255 2 1
     = Inr (2, [\<lparr>is_cuda = True, scalar_type = Float, sizes = [1], elems = [Fin 3]\<rparr>,
         \<lparr>is_cuda = True, scalar_type = Float, sizes = [1], elems = [Fin 1]\<rparr>,
         \<lparr>is_cuda = True, scalar_type = Float, sizes = [1], elems = [Fin 1]\<rparr>])
   \<and> take 2 [\<lparr>is_cuda = True, scalar_type = Float, sizes = [1], elems = [Fin 3]\<rparr>,
         \<lparr>is_cuda = True, scalar_type = Float, sizes = [1], elems = [Fin 1]\<rparr>,
         \<lparr>is_cuda = True, scalar_type = Float, sizes = [1], elems = [Fin 1]\<rparr>]
     = [\<lparr>is_cuda = True, scalar_type = Float, sizes = [1], elems = [Fin 3]\<rparr>,
         \<lparr>is_cuda = True, scalar_type = Float, sizes = [1], elems = [Fin 1]\<rparr>]
   \<and> (2 :: nat) \<noteq> 0 \<and> (2 :: nat) \<noteq> 1"
proof -
  let ?h = "[\<lparr>is_cuda = True, scalar_type = Float, sizes = [1], elems = [Fin 3]\<rparr>,
         \<lparr>is_cuda = True, scalar_type = Float, sizes = [1], elems = [Fin 1]\<rparr>]"
  let ?f = "[\<lparr>is_cuda = True, scalar_type = Float, sizes = [1], elems = [Fin 3]\<rparr>,
         \<lparr>is_cuda = True, scalar_type = Float, sizes = [1], elems = [Fin 1]\<rparr>,
         \<lparr>is_cuda = True, scalar_type = Float, sizes = [1], elems = [Fin 3]\<rparr>]"
  let ?b = "[\<lparr>is_cuda = True, scalar_type = Float, sizes = [1], elems = [Fin 3]\<rparr>,
         \<lparr>is_cuda = True, scalar_type = Float, sizes = [1], elems = [Fin 1]\<rparr>,
         \<lparr>is_cuda = True, scalar_type = Float, sizes = [1], elems = [Fin 1]\<rparr>]"
  have l: "0 < length ?h" "1 < length ?h" by simp_all
  have v: "validator 0 0 255 2 1" "warm_up 2 1"
    by (simp_all add: validator_def warm_up_def)
  have f: "fake_quantize_per_tensor_affine_cuda ?h 0 (Fin 1) 0 0 255 2 1 = Inr (2, ?f)"
    using forward_warm_up_eq [OF l(1) _ _ v, of "Fin 1"] by simp
  have b: "fake_quantize_per_tensor_affine_backward_cuda ?h 1 0 (Fin 1) 0 0 255 2 1 = Inr (2, ?b)"
    using backward_warm_up_eq [OF l(2) _ _ v(1) _ _ v(2), of 0 "Fin 1"] by (simp add: numel_def)
  show ?thesis
    using outputs_are_fresh [OF l, of "Fin 1" 0 0 255 2 1 2 ?f 2 ?b] f b by simp
qed

text \<open>
  C8 as stated fails in the zero-element case of the backward transform, which it names:
  the call returns normally and the array returned is the input (handle 0) itself.
\<close>

theorem backward_empty_returns_input_counterexample:
  "fake_quantize_per_tensor_affine_backward_cuda
        [\<lparr>is_cuda = True, scalar_type = Float, sizes = [0], elems = []\<rparr>,
         \<lparr>is_cuda = True, scalar_type = Float, sizes = [0], elems = []\<rparr>]
        1 0 (Fin (1 / 2)) 10 0 255 0 0
      = Inr (0, [\<lparr>is_cuda = True, scalar_type = Float, sizes = [0], elems = []\<rparr>,
         \<lparr>is_cuda = True, scalar_type = Float, sizes = [0], elems = []\<rparr>])"
  by (simp add: fake_quantize_per_tensor_affine_backward_cuda_def numel_def)

text \<open>
  C10.  When the input array of the backward transform has zero elements (and the checks
  that precede the shortcut pass: a float array on the device, \<open>quant_min \<le> quant_max\<close>,
  \<open>zero_point \<ge> 0\<close>, \<open>quant_delay \<ge> 0\<close>), the call returns that input array itself and
  leaves the heap as it was, whatever the element count of \<open>gradOutput\<close> and whatever
  \<open>iter\<close>: the shortcut is taken before the \<open>ShapeMismatch\<close> and \<open>InvalidIter\<close> checks.
\<close>

theorem backward_empty_input_shortcut:
  assumes "is_cuda (h ! X)" "scalar_type (h ! X) = Float"
    and "sint quant_min \<le> sint quant_max" "0 \<le> sint zero_point" "0 \<le> sint quant_delay"
    and "numel (h ! X) = 0"
  shows "fake_quantize_per_tensor_affine_backward_cuda h dY X scale zero_point quant_min
           quant_max quant_delay iter = Inr (X, h)"
  using assms by (rule backward_empty_eq)

theorem backward_empty_input_shortcut_witness:
  "numel ([\<lparr>is_cuda = True, scalar_type = Float, sizes = [0, 4], elems = []\<rparr>,
           \<lparr>is_cuda = True, scalar_type = Float, sizes = [2], elems = [Fin 1, Fin 2]\<rparr>] ! 0) = 0
   \<and> numel ([\<lparr>is_cuda = True, scalar_type = Float, sizes = [0, 4], elems = []\<rparr>,
           \<lparr>is_cuda = True, scalar_type = Float, sizes = [2], elems = [Fin 1, Fin 2]\<rparr>] ! 1) = 2
   \<and> (7 :: int64_t) \<noteq> 0 \<and> sint (- 5 :: int64_t) < 0
   \<and> fake_quantize_per_tensor_affine_backward_cuda
        [\<lparr>is_cuda = True, scalar_type = Float, sizes = [0, 4], elems = []\<rparr>,
         \<lparr>is_cuda = True, scalar_type = Float, sizes = [2], elems = [Fin 1, Fin 2]\<rparr>]
        1 0 (Fin (1 / 2)) 10 0 255 7 (- 5)
      = Inr (0, [\<lparr>is_cuda = True, scalar_type = Float, sizes = [0, 4], elems = []\<rparr>,
         \<lparr>is_cuda = True, scalar_type = Float, sizes = [2], elems = [Fin 1, Fin 2]\<rparr>])"
proof -
  let ?h = "[\<lparr>is_cuda = True, scalar_type = Float, sizes = [0, 4], elems = []\<rparr>,
         \<lparr>is_cuda = True, scalar_type = Float, sizes = [2], elems = [Fin 1, Fin 2]\<rparr>]"
  have n: "numel (?h ! 0) = 0" "numel (?h ! 1) = 2" by (simp_all add: numel_def)
  have q: "sint (0 :: int64_t) \<le> sint (255 :: int64_t)" "0 \<le> sint (10 :: int64_t)"
    "0 \<le> sint (7 :: int64_t)" by simp_all
  show ?thesis
    using backward_empty_input_shortcut [OF _ _ q n(1), of 1 "Fin (1 / 2)" "- 5"] n by simp
qed

text \<open>
  C9.  With \<open>scale = 0.5\<close>, \<open>zero_point = 10\<close>, \<open>quant_min = 0\<close>, \<open>quant_max = 255\<close> and
  \<open>quant_delay = 0\<close>, the forward transform maps the element 3.3 (the float nearest to
  it) to 3.5 through \<open>q = 17\<close>, and the element 200 to 122.5 through the rounded value
  410 clamped to 255; the backward mask at the position of 200 is 0, so that the gradient
  there is 0.  The product by \<open>1 / scale = 2\<close> is exact, so the rounded values are the same
  when the product and the sum are rounded one after the other.
\<close>

theorem concrete_scenario:
  "to_float (Fin (33 / 10)) = Fin (13841203 / 4194304)
   \<and> inv_scale_of (Fin (1 / 2)) = Fin 2
   \<and> roundf (fmaf (to_float (Fin (33 / 10))) (inv_scale_of (Fin (1 / 2))) (int64_to_float 10))
       = Fin 17
   \<and> roundf (fadd32 (fmul32 (to_float (Fin (33 / 10))) (inv_scale_of (Fin (1 / 2))))
        (int64_to_float 10)) = Fin 17
   \<and> fminf (int64_to_float 255) (fmaxf (int64_to_float 0)
        (roundf (fmaf (to_float (Fin (33 / 10))) (inv_scale_of (Fin (1 / 2)))
           (int64_to_float 10)))) = Fin 17
   \<and> spec_quantize (spec_affine (to_float (Fin (33 / 10))) (spec_inv_scale (Fin (1 / 2))) 10)
        0 255 = 17
   \<and> roundf (fmaf (Fin 200) (inv_scale_of (Fin (1 / 2))) (int64_to_float 10)) = Fin 410
   \<and> roundf (fadd32 (fmul32 (Fin 200) (inv_scale_of (Fin (1 / 2)))) (int64_to_float 10))
       = Fin 410
   \<and> fminf (int64_to_float 255) (fmaxf (int64_to_float 0)
        (roundf (fmaf (Fin 200) (inv_scale_of (Fin (1 / 2))) (int64_to_float 10)))) = Fin 255
   \<and> spec_quantize (spec_affine (Fin 200) (spec_inv_scale (Fin (1 / 2))) 10) 0 255 = 255
   \<and> result_elems (fake_quantize_per_tensor_affine_cuda
         [\<lparr>is_cuda = True, scalar_type = Float, sizes = [2],
            elems = [to_float (Fin (33 / 10)), Fin 200]\<rparr>]
         0 (Fin (1 / 2)) 10 0 255 0 0) = Some [Fin (7 / 2), Fin (245 / 2)]
   \<and> backward_op 10 0 255 (inv_scale_of (Fin (1 / 2))) (Fin 200) uninitialized = Fin 0
   \<and> \<not> spec_in_range (spec_affine (Fin 200) (spec_inv_scale (Fin (1 / 2))) 10) 0 255
   \<and> result_elems (fake_quantize_per_tensor_affine_backward_cuda
         [\<lparr>is_cuda = True, scalar_type = Float, sizes = [2],
            elems = [to_float (Fin (33 / 10)), Fin 200]\<rparr>,
          \<lparr>is_cuda = True, scalar_type = Float, sizes = [2], elems = [Fin 1, Fin 1]\<rparr>]
         1 0 (Fin (1 / 2)) 10 0 255 0 0) = Some [Fin 1, Fin 0]"
proof -
  let ?x = "to_float (Fin (33 / 10))"
  let ?inv = "inv_scale_of (Fin (1 / 2))"
  let ?X = "\<lparr>is_cuda = True, scalar_type = Float, sizes = [2], elems = [?x, Fin 200]\<rparr>"
  let ?dY = "\<lparr>is_cuda = True, scalar_type = Float, sizes = [2], elems = [Fin 1, Fin 1]\<rparr>"
  have x: "?x = Fin (13841203 / 4194304)"
    by code_simp
  have inv: "?inv = Fin 2"
    by code_simp
  have r1: "roundf (fmaf ?x ?inv (int64_to_float 10)) = Fin 17"
    by code_simp
  have u1: "roundf (fadd32 (fmul32 ?x ?inv) (int64_to_float 10)) = Fin 17"
    by code_simp
  have q1: "fminf (int64_to_float 255) (fmaxf (int64_to_float 0)
      (roundf (fmaf ?x ?inv (int64_to_float 10)))) = Fin 17"
    by code_simp
  have s1: "spec_quantize (spec_affine ?x (spec_inv_scale (Fin (1 / 2))) 10) 0 255 = 17"
    by code_simp
  have r2: "roundf (fmaf (Fin 200) ?inv (int64_to_float 10)) = Fin 410"
    by code_simp
  have u2: "roundf (fadd32 (fmul32 (Fin 200) ?inv) (int64_to_float 10)) = Fin 410"
    by code_simp
  have q2: "fminf (int64_to_float 255) (fmaxf (int64_to_float 0)
      (roundf (fmaf (Fin 200) ?inv (int64_to_float 10)))) = Fin 255"
    by code_simp
  have s2: "spec_quantize (spec_affine (Fin 200) (spec_inv_scale (Fin (1 / 2))) 10) 0 255 = 255"
    by code_simp
  have d1: "forward_op (Fin (1 / 2)) 10 0 255 ?inv ?x uninitialized = Fin (7 / 2)"
    by code_simp
  have d2: "forward_op (Fin (1 / 2)) 10 0 255 ?inv (Fin 200) uninitialized = Fin (245 / 2)"
    by code_simp
  have m1: "backward_op 10 0 255 ?inv ?x uninitialized = Fin 1"
    by code_simp
  have m2: "backward_op 10 0 255 ?inv (Fin 200) uninitialized = Fin 0"
    by code_simp
  have n2: "\<not> spec_in_range (spec_affine (Fin 200) (spec_inv_scale (Fin (1 / 2))) 10) 0 255"
    by code_simp
  have g1: "fmul32 (Fin 1) (Fin 1) = Fin 1"
    by code_simp
  have g2: "fmul32 (Fin 0) (Fin 1) = Fin 0"
    by code_simp
  have p: "validator 10 0 255 0 0" "\<not> warm_up 0 0"
    by (simp_all add: validator_def warm_up_def)
  have vf: "valid [?X] 0" and vb: "valid [?X, ?dY] 0"
    by (simp_all add: valid_def wf_tensor_def numel_def)
  have f: "result_elems (fake_quantize_per_tensor_affine_cuda [?X] 0 (Fin (1 / 2)) 10 0 255 0 0)
      = Some [Fin (7 / 2), Fin (245 / 2)]"
    using forward_kernel_eq [OF vf _ _ p, of "Fin (1 / 2)"]
    by (simp add: result_elems_def d1 d2)
  have b: "result_elems (fake_quantize_per_tensor_affine_backward_cuda [?X, ?dY] 1 0
      (Fin (1 / 2)) 10 0 255 0 0) = Some [Fin 1, Fin 0]"
    using backward_kernel_eq [OF vb _ _ _ _ _ p(1) _ _ p(2), of 1 "Fin (1 / 2)"]
    by (simp add: result_elems_def numel_def m1 m2 g1 g2)
  from x inv r1 u1 q1 s1 r2 u2 q2 s2 f m2 n2 b show ?thesis
    by blast
qed

text \<open>
  C7 (as amended).  Outside warm-up and with valid parameters such that
  \<open>quant_max \<le> 2 ^ 24\<close>, \<open>zero_point \<le> 2 ^ 24\<close> and \<open>zero_point - quant_min \<le> 2 ^ 24\<close>, every
  value of the array the forward transform returns is, as a number, one of the values
  \<open>(q - zero_point) * scale\<close> for an integer \<open>q\<close> with \<open>quant_min \<le> q \<le> quant_max\<close>: the
  product of the exact integer difference and the scale, rounded to double and to float.
\<close>

theorem forward_output_levels:
  assumes "valid h self" "is_cuda (h ! self)" "scalar_type (h ! self) = Float"
    and "validator zero_point quant_min quant_max quant_delay iter"
    and "quant_delay = 0 \<or> sint quant_delay < sint iter"
    and "sint quant_max \<le> 2 ^ 24" "sint zero_point \<le> 2 ^ 24"
    and "sint zero_point - sint quant_min \<le> 2 ^ 24"
  shows "\<exists>out. result_elems (fake_quantize_per_tensor_affine_cuda h self scale zero_point
             quant_min quant_max quant_delay iter) = Some out
           \<and> length out = length (elems (h ! self))
           \<and> (\<forall>y \<in> set out. \<exists>q. sint quant_min \<le> q \<and> q \<le> sint quant_max
                 \<and> same_value y (spec_dequantize (q - sint zero_point) scale))"
proof -
  have w: "\<not> warm_up quant_delay iter"
    using assms(4,5) by (auto simp: validator_def warm_up_def)
  have r: "sint quant_min \<le> sint quant_max" "0 \<le> sint zero_point"
    using assms(4) by (simp_all add: validator_def)
  have "\<exists>q. sint quant_min \<le> q \<and> q \<le> sint quant_max
      \<and> same_value
          (forward_op scale zero_point quant_min quant_max (inv_scale_of scale) x uninitialized)
          (spec_dequantize (q - sint zero_point) scale)" for x
    using forward_op_spec [OF r assms(6-8), of scale x uninitialized]
      spec_quantize_range [OF r(1)]
    unfolding spec_forward_def by blast
  then show ?thesis
    using forward_kernel_eq [OF assms(1-4) w, of scale] by (auto simp: result_elems_def)
qed

theorem forward_output_levels_witness:
  "valid [\<lparr>is_cuda = True, scalar_type = Float, sizes = [2], elems = [Fin (- 7), PInf]\<rparr>] 0
   \<and> validator 10 0 255 0 0
   \<and> sint (255 :: int64_t) \<le> 2 ^ 24 \<and> sint (10 :: int64_t) \<le> 2 ^ 24
   \<and> sint (10 :: int64_t) - sint (0 :: int64_t) \<le> 2 ^ 24
   \<and> (\<exists>out. result_elems (fake_quantize_per_tensor_affine_cuda
         [\<lparr>is_cuda = True, scalar_type = Float, sizes = [2], elems = [Fin (- 7), PInf]\<rparr>]
         0 (Fin (1 / 2)) 10 0 255 0 0) = Some out
       \<and> length out = length [Fin (- 7), PInf]
       \<and> (\<forall>y \<in> set out. \<exists>q. sint (0 :: int64_t) \<le> q \<and> q \<le> sint (255 :: int64_t)
             \<and> same_value y (spec_dequantize (q - sint (10 :: int64_t)) (Fin (1 / 2)))))"
proof -
  let ?h = "[\<lparr>is_cuda = True, scalar_type = Float, sizes = [2], elems = [Fin (- 7), PInf]\<rparr>]"
  have v: "valid ?h 0"
    by (simp add: valid_def wf_tensor_def numel_def)
  have p: "validator 10 0 255 0 0"
    by (simp add: validator_def)
  have b: "sint (255 :: int64_t) \<le> 2 ^ 24" "sint (10 :: int64_t) \<le> 2 ^ 24"
    "sint (10 :: int64_t) - sint (0 :: int64_t) \<le> 2 ^ 24"
    by simp_all
  from forward_output_levels [OF v _ _ p _ b, of "Fin (1 / 2)"]
  show ?thesis using v p by simp
qed

text \<open>
  C7 as stated fails where a float does not hold the integers: with \<open>scale = 1\<close>,
  \<open>zero_point = 2 ^ 24 + 1\<close> and \<open>quant_min = quant_max = 2 ^ 24 + 3\<close> the only level is
  \<open>q = 2 ^ 24 + 3\<close> and the set is \<open>{2}\<close>, and the transform returns 4: the float of
  \<open>quant_max\<close> is \<open>2 ^ 24 + 4\<close> and the float of \<open>zero_point\<close> is \<open>2 ^ 24\<close>.
\<close>

theorem forward_levels_counterexample:
  "validator 16777217 16777219 16777219 0 0
   \<and> result_elems (fake_quantize_per_tensor_affine_cuda
        [\<lparr>is_cuda = True, scalar_type = Float, sizes = [1], elems = [Fin 1]\<rparr>]
        0 (Fin 1) 16777217 16777219 16777219 0 0) = Some [Fin 4]
   \<and> spec_dequantize (16777219 - 16777217) (Fin 1) = Fin 2
   \<and> \<not> same_value (Fin 4) (Fin 2)"
proof -
  let ?h = "[\<lparr>is_cuda = True, scalar_type = Float, sizes = [1], elems = [Fin 1]\<rparr>]"
  have p: "validator 16777217 16777219 16777219 0 0" "\<not> warm_up 0 0"
    by (simp_all add: validator_def warm_up_def)
  have v: "valid ?h 0"
    by (simp add: valid_def wf_tensor_def numel_def)
  have k: "forward_op (Fin 1) 16777217 16777219 16777219 (inv_scale_of (Fin 1)) (Fin 1)
      uninitialized = Fin 4"
    by code_simp
  have s: "spec_dequantize (16777219 - 16777217) (Fin 1) = Fin 2"
    by code_simp
  have "result_elems (fake_quantize_per_tensor_affine_cuda ?h 0 (Fin 1) 16777217 16777219
      16777219 0 0) = Some [Fin 4]"
    using forward_kernel_eq [OF v _ _ p, of "Fin 1"] by (simp add: result_elems_def k)
  with p(1) s show ?thesis by (simp add: same_value_def)
qed

text \<open>
  C2 (as amended).  Outside warm-up, with valid parameters of magnitude at most \<open>2 ^ 24\<close>
  (\<open>- 2 ^ 24 \<le> quant_min\<close>, \<open>quant_max \<le> 2 ^ 24\<close>, \<open>zero_point \<le> 2 ^ 24\<close>) and conformant
  float arrays on the device, the backward transform returns at each position \<open>i\<close> the
  number \<open>m * gradOutput[i]\<close>, where \<open>m\<close> is 1 if
  \<open>quant_min \<le> round(input[i] * (1/scale) + zero_point) \<le> quant_max\<close> and 0 otherwise (also
  when the value to round is a NaN or infinite): it is \<open>gradOutput[i]\<close> where \<open>m\<close> is 1, and
  where \<open>m\<close> is 0 it is zero for a finite \<open>gradOutput[i]\<close> and a NaN for an infinite or NaN
  one.  Where \<open>gradOutput[i]\<close> is finite and nonzero, the value returned at \<open>i\<close> is zero iff
  the rounded value falls outside \<open>[quant_min, quant_max]\<close>.
\<close>

theorem backward_masked_gradient:
  assumes "valid h X" "valid h dY"
    and "is_cuda (h ! X)" "scalar_type (h ! X) = Float"
    and "is_cuda (h ! dY)" "scalar_type (h ! dY) = Float"
    and "validator zero_point quant_min quant_max quant_delay iter"
    and "numel (h ! X) = numel (h ! dY)"
    and "quant_delay = 0 \<or> sint quant_delay < sint iter"
    and "- (2 ^ 24) \<le> sint quant_min" "sint quant_max \<le> 2 ^ 24" "sint zero_point \<le> 2 ^ 24"
    and "list_all is_float (elems (h ! dY))"
  shows "\<exists>out. result_elems (fake_quantize_per_tensor_affine_backward_cuda h dY X scale
             zero_point quant_min quant_max quant_delay iter) = Some out
           \<and> length out = length (elems (h ! X))
           \<and> (\<forall>i < length out.
                 same_value (out ! i)
                   (spec_backward scale (sint zero_point) (sint quant_min) (sint quant_max)
                      (elems (h ! X) ! i) (elems (h ! dY) ! i))
                 \<and> (\<not> is_nan (elems (h ! dY) ! i) \<and> \<not> is_inf (elems (h ! dY) ! i)
                      \<and> \<not> is_zero (elems (h ! dY) ! i)
                    \<longrightarrow> (is_zero (out ! i) \<longleftrightarrow>
                           \<not> spec_in_range
                               (spec_affine (elems (h ! X) ! i) (spec_inv_scale scale)
                                  (sint zero_point))
                               (sint quant_min) (sint quant_max))))"
proof (cases "numel (h ! X) = 0")
  case True
  then have "elems (h ! X) = []"
    using assms(1) by (simp add: valid_def wf_tensor_def)
  moreover have "fake_quantize_per_tensor_affine_backward_cuda h dY X scale zero_point
      quant_min quant_max quant_delay iter = Inr (X, h)"
    using assms(7) by (intro backward_empty_eq assms(3,4) True) (simp_all add: validator_def)
  ultimately show ?thesis by (simp add: result_elems_def)
next
  case False
  define R where "R = (\<lambda>x. spec_in_range (spec_affine x (spec_inv_scale scale) (sint zero_point))
    (sint quant_min) (sint quant_max))"
  define m where "m = (\<lambda>x. backward_op zero_point quant_min quant_max (inv_scale_of scale) x
    uninitialized)"
  define out where "out = map2 fmul32 (map m (elems (h ! X))) (elems (h ! dY))"
  have w: "\<not> warm_up quant_delay iter"
    using assms(7,9) by (auto simp: validator_def warm_up_def)
  have r: "0 \<le> sint zero_point" "sint quant_min \<le> sint quant_max"
    using assms(7) by (simp_all add: validator_def)
  have d: "dY < length h" using assms(2) by (simp add: valid_def)
  have len: "length (elems (h ! X)) = length (elems (h ! dY))"
    using assms(1,2,8) by (simp add: valid_def wf_tensor_def)
  have res: "result_elems (fake_quantize_per_tensor_affine_backward_cuda h dY X scale
      zero_point quant_min quant_max quant_delay iter) = Some out"
    using backward_kernel_eq [OF assms(1) d assms(3-7) _ assms(8) w, of scale] False
    by (simp add: result_elems_def out_def m_def nth_append)
  have l: "length out = length (elems (h ! X))"
    using len by (simp add: out_def)
  have mR: "m x = bool_to_float (R x)" for x
    unfolding m_def R_def by (rule backward_op_spec [OF r(1) assms(10) r(2) assms(11,12)])
  have nth: "out ! i = fmul32 (bool_to_float (R (elems (h ! X) ! i))) (elems (h ! dY) ! i)"
    if "i < length out" for i
    using that len by (simp add: out_def mR)
  have fl: "is_float (elems (h ! dY) ! i)" if "i < length out" for i
    using that assms(13) l len by (simp add: list_all_length)
  have sv: "same_value (out ! i)
      (spec_backward scale (sint zero_point) (sint quant_min) (sint quant_max)
         (elems (h ! X) ! i) (elems (h ! dY) ! i))"
    if "i < length out" for i
    using mask_product_spec [OF fl [OF that], of "R (elems (h ! X) ! i)"]
    by (simp only: nth [OF that] spec_backward_def R_def)
  have z: "is_zero (out ! i) \<longleftrightarrow> \<not> R (elems (h ! X) ! i)"
    if "i < length out" "\<not> is_nan (elems (h ! dY) ! i)" "\<not> is_inf (elems (h ! dY) ! i)"
      "\<not> is_zero (elems (h ! dY) ! i)" for i
  proof -
    from that(2-4) obtain v where g: "elems (h ! dY) ! i = Fin v" "v \<noteq> 0"
      by (cases "elems (h ! dY) ! i") simp_all
    from sv [OF that(1)] show ?thesis
      by (auto simp: spec_backward_def R_def g same_value_def)
  qed
  from res l sv z show ?thesis unfolding R_def by auto
qed

theorem backward_masked_gradient_witness:
  "valid [\<lparr>is_cuda = True, scalar_type = Float, sizes = [2], elems = [Fin 200, Fin 1]\<rparr>,
          \<lparr>is_cuda = True, scalar_type = Float, sizes = [2], elems = [Fin 1, Fin 3]\<rparr>] 0
   \<and> valid [\<lparr>is_cuda = True, scalar_type = Float, sizes = [2], elems = [Fin 200, Fin 1]\<rparr>,
          \<lparr>is_cuda = True, scalar_type = Float, sizes = [2], elems = [Fin 1, Fin 3]\<rparr>] 1
   \<and> validator 10 0 255 0 0
   \<and> - (2 ^ 24) \<le> sint (0 :: int64_t) \<and> sint (255 :: int64_t) \<le> 2 ^ 24
   \<and> sint (10 :: int64_t) \<le> 2 ^ 24
   \<and> list_all is_float [Fin 1, Fin 3]
   \<and> (\<exists>out. result_elems (fake_quantize_per_tensor_affine_backward_cuda
          [\<lparr>is_cuda = True, scalar_type = Float, sizes = [2], elems = [Fin 200, Fin 1]\<rparr>,
           \<lparr>is_cuda = True, scalar_type = Float, sizes = [2], elems = [Fin 1, Fin 3]\<rparr>]
          1 0 (Fin (1 / 2)) 10 0 255 0 0) = Some out
        \<and> length out = length [Fin 200, Fin 1]
        \<and> (\<forall>i < length out.
              same_value (out ! i)
                (spec_backward (Fin (1 / 2)) (sint (10 :: int64_t)) (sint (0 :: int64_t))
                   (sint (255 :: int64_t)) ([Fin 200, Fin 1] ! i) ([Fin 1, Fin 3] ! i))
              \<and> (\<not> is_nan ([Fin 1, Fin 3] ! i) \<and> \<not> is_inf ([Fin 1, Fin 3] ! i)
                    \<and> \<not> is_zero ([Fin 1, Fin 3] ! i)
                  \<longrightarrow> (is_zero (out ! i) \<longleftrightarrow>
                         \<not> spec_in_range
                             (spec_affine ([Fin 200, Fin 1] ! i) (spec_inv_scale (Fin (1 / 2)))
                                (sint (10 :: int64_t)))
                             (sint (0 :: int64_t)) (sint (255 :: int64_t))))))"
proof -
  let ?h = "[\<lparr>is_cuda = True, scalar_type = Float, sizes = [2], elems = [Fin 200, Fin 1]\<rparr>,
          \<lparr>is_cuda = True, scalar_type = Float, sizes = [2], elems = [Fin 1, Fin 3]\<rparr>]"
  have v: "valid ?h 0" "valid ?h 1"
    by (simp_all add: valid_def wf_tensor_def numel_def)
  have p: "validator 10 0 255 0 0"
    by (simp add: validator_def)
  have n: "numel (?h ! 0) = numel (?h ! 1)"
    by (simp add: numel_def)
  have b: "- (2 ^ 24) \<le> sint (0 :: int64_t)" "sint (255 :: int64_t) \<le> 2 ^ 24"
    "sint (10 :: int64_t) \<le> 2 ^ 24"
    by simp_all
  have g: "list_all is_float [Fin 1, Fin 3]"
    using round32_exact_int [of 1] round32_exact_int [of 3]
    by (simp add: is_float_def to_float_def)
  have g': "list_all is_float (elems (?h ! 1))" using g by simp
  from backward_masked_gradient [OF v _ _ _ _ p n _ b g', of "Fin (1 / 2)"]
  show ?thesis using v p g by simp
qed

text \<open>
  C2 as stated fails where \<open>gradOutput\<close> is infinite: at an input whose rounded value, 410,
  is outside \<open>[0, 255]\<close> the mask is 0 and the product \<open>0 * \<infinity>\<close> is a NaN, not zero.  It
  also fails where a float does not hold a bound: with \<open>quant_min = 2 ^ 24 + 1\<close>, whose
  float is \<open>2 ^ 24\<close>, the input \<open>2 ^ 24\<close> rounds to \<open>2 ^ 24 < quant_min\<close> and the gradient 1
  is returned, not zero.
\<close>

theorem backward_infinite_gradient_counterexample:
  "\<not> spec_in_range (spec_affine (Fin 200) (spec_inv_scale (Fin (1 / 2))) 10) 0 255
   \<and> \<not> is_zero PInf
   \<and> result_elems (fake_quantize_per_tensor_affine_backward_cuda
        [\<lparr>is_cuda = True, scalar_type = Float, sizes = [1], elems = [Fin 200]\<rparr>,
         \<lparr>is_cuda = True, scalar_type = Float, sizes = [1], elems = [PInf]\<rparr>]
        1 0 (Fin (1 / 2)) 10 0 255 0 0) = Some [NaN]
   \<and> \<not> is_zero NaN
   \<and> validator 0 16777217 33554432 0 0
   \<and> \<not> spec_in_range (spec_affine (Fin 16777216) (spec_inv_scale (Fin 1)) 0)
         16777217 33554432
   \<and> result_elems (fake_quantize_per_tensor_affine_backward_cuda
        [\<lparr>is_cuda = True, scalar_type = Float, sizes = [1], elems = [Fin 16777216]\<rparr>,
         \<lparr>is_cuda = True, scalar_type = Float, sizes = [1], elems = [Fin 1]\<rparr>]
        1 0 (Fin 1) 0 16777217 33554432 0 0) = Some [Fin 1]
   \<and> \<not> is_zero (Fin 1)"
proof -
  let ?h = "[\<lparr>is_cuda = True, scalar_type = Float, sizes = [1], elems = [Fin 200]\<rparr>,
         \<lparr>is_cuda = True, scalar_type = Float, sizes = [1], elems = [PInf]\<rparr>]"
  let ?k = "[\<lparr>is_cuda = True, scalar_type = Float, sizes = [1], elems = [Fin 16777216]\<rparr>,
         \<lparr>is_cuda = True, scalar_type = Float, sizes = [1], elems = [Fin 1]\<rparr>]"
  have r: "\<not> spec_in_range (spec_affine (Fin 200) (spec_inv_scale (Fin (1 / 2))) 10) 0 255"
    by code_simp
  have m: "backward_op 10 0 255 (inv_scale_of (Fin (1 / 2))) (Fin 200) uninitialized = Fin 0"
    by code_simp
  have g: "fmul32 (Fin 0) PInf = NaN"
    by code_simp
  have v: "valid ?h 0"
    by (simp add: valid_def wf_tensor_def numel_def)
  have p: "validator 10 0 255 0 0" "\<not> warm_up 0 0"
    by (simp_all add: validator_def warm_up_def)
  have one: "result_elems (fake_quantize_per_tensor_affine_backward_cuda ?h 1 0 (Fin (1 / 2))
      10 0 255 0 0) = Some [NaN]"
    using backward_kernel_eq [OF v _ _ _ _ _ p(1) _ _ p(2), of 1 "Fin (1 / 2)"]
    by (simp add: result_elems_def numel_def m g)
  have r': "\<not> spec_in_range (spec_affine (Fin 16777216) (spec_inv_scale (Fin 1)) 0)
      16777217 33554432"
    by code_simp
  have m': "backward_op 0 16777217 33554432 (inv_scale_of (Fin 1)) (Fin 16777216)
      uninitialized = Fin 1"
    by code_simp
  have g': "fmul32 (Fin 1) (Fin 1) = Fin 1"
    by code_simp
  have v': "valid ?k 0"
    by (simp add: valid_def wf_tensor_def numel_def)
  have p': "validator 0 16777217 33554432 0 0"
    by (simp add: validator_def)
  have two: "result_elems (fake_quantize_per_tensor_affine_backward_cuda ?k 1 0 (Fin 1)
      0 16777217 33554432 0 0) = Some [Fin 1]"
    using backward_kernel_eq [OF v' _ _ _ _ _ p' _ _ p(2), of 1 "Fin 1"]
    by (simp add: result_elems_def numel_def m' g')
  from r one p' r' two show ?thesis by simp
qed

text \<open>
  C6 (as amended).  For valid parameters with \<open>quant_delay = 0\<close>, a finite scale with
  \<open>|scale| \<ge> 2 ^ - 127\<close> (so that the float \<open>1 / scale\<close> is finite), \<open>quant_max < 2 ^ 22\<close>
  and \<open>zero_point - quant_min < 2 ^ 22\<close> (so that every level and every difference
  \<open>q - zero_point\<close> is below \<open>2 ^ 22\<close> in magnitude), the forward transform is idempotent:
  applied to its own output with the same parameters it returns, element for element, the
  same numbers.  The scale may be as large as a double allows: outputs that overflow to an
  infinity are fixed points too.
\<close>

theorem forward_idempotent:
  assumes "valid h self" "is_cuda (h ! self)" "scalar_type (h ! self) = Float"
    and "validator zero_point quant_min quant_max 0 iter"
    and "2 powi (- 127) \<le> \<bar>sv\<bar>"
    and "sint quant_max < 2 ^ 22" "sint zero_point - sint quant_min < 2 ^ 22"
  shows "\<exists>Y h' Y' h''.
           fake_quantize_per_tensor_affine_cuda h self (Fin sv) zero_point quant_min quant_max
             0 iter = Inr (Y, h')
         \<and> fake_quantize_per_tensor_affine_cuda h' Y (Fin sv) zero_point quant_min quant_max
             0 iter = Inr (Y', h'')
         \<and> list_all2 same_value (elems (h'' ! Y')) (elems (h' ! Y))"
proof -
  define F where "F = (\<lambda>x. forward_op (Fin sv) zero_point quant_min quant_max
    (inv_scale_of (Fin sv)) x uninitialized)"
  define T where "T = (h ! self)\<lparr>elems := map F (elems (h ! self))\<rparr>"
  define T' where "T' = T\<lparr>elems := map F (elems T)\<rparr>"
  have w: "\<not> warm_up 0 iter" by (simp add: warm_up_def)
  have r: "sint quant_min \<le> sint quant_max" "0 \<le> sint zero_point"
    using assms(4) by (simp_all add: validator_def)
  have one: "fake_quantize_per_tensor_affine_cuda h self (Fin sv) zero_point quant_min
      quant_max 0 iter = Inr (length h, h @ [T])"
    using forward_kernel_eq [OF assms(1-4) w, of "Fin sv"] by (simp add: T_def F_def)
  have t: "(h @ [T]) ! length h = T" by simp
  have v: "valid (h @ [T]) (length h)"
    using assms(1) by (simp add: valid_def wf_tensor_def numel_def T_def)
  have c: "is_cuda ((h @ [T]) ! length h)" "scalar_type ((h @ [T]) ! length h) = Float"
    using assms(2,3) by (simp_all add: T_def)
  have two: "fake_quantize_per_tensor_affine_cuda (h @ [T]) (length h) (Fin sv) zero_point
      quant_min quant_max 0 iter = Inr (length (h @ [T]), (h @ [T]) @ [T'])"
    using forward_kernel_eq [OF v c assms(4) w, of "Fin sv"]
    by (simp only: t T'_def F_def)
  have "same_value (F (F x)) (F x)" for x
    unfolding F_def by (rule forward_value_idempotent [OF assms(5) r assms(6,7)])
  then have "list_all2 same_value (map F (map F (elems (h ! self)))) (map F (elems (h ! self)))"
    by (simp add: list_all2_conv_all_nth)
  then have "list_all2 same_value (elems (((h @ [T]) @ [T']) ! length (h @ [T])))
      (elems ((h @ [T]) ! length h))"
    by (simp add: T'_def T_def nth_append)
  with one two show ?thesis by blast
qed

text \<open>
  An instance with floats only: \<open>scale\<close> is the double nearest to 0.1, and the elements are
  2.25 and \<open>-\<infinity>\<close>.
\<close>

theorem forward_idempotent_witness:
  "valid [\<lparr>is_cuda = True, scalar_type = Float, sizes = [2], elems = [Fin (9 / 4), NInf]\<rparr>] 0
   \<and> validator 128 0 255 0 0
   \<and> 2 powi (- 127) \<le> \<bar>3602879701896397 / 36028797018963968 :: rat\<bar>
   \<and> sint (255 :: int64_t) < 2 ^ 22
   \<and> sint (128 :: int64_t) - sint (0 :: int64_t) < 2 ^ 22
   \<and> (\<exists>Y h' Y' h''.
           fake_quantize_per_tensor_affine_cuda
             [\<lparr>is_cuda = True, scalar_type = Float, sizes = [2], elems = [Fin (9 / 4), NInf]\<rparr>]
             0 (Fin (3602879701896397 / 36028797018963968)) 128 0 255 0 0 = Inr (Y, h')
         \<and> fake_quantize_per_tensor_affine_cuda h' Y
             (Fin (3602879701896397 / 36028797018963968)) 128 0 255 0 0 = Inr (Y', h'')
         \<and> list_all2 same_value (elems (h'' ! Y')) (elems (h' ! Y)))"
proof -
  let ?h = "[\<lparr>is_cuda = True, scalar_type = Float, sizes = [2], elems = [Fin (9 / 4), NInf]\<rparr>]"
  have v: "valid ?h 0"
    by (simp add: valid_def wf_tensor_def numel_def)
  have p: "validator 128 0 255 0 0"
    by (simp add: validator_def)
  have s: "2 powi (- 127) \<le> \<bar>3602879701896397 / 36028797018963968 :: rat\<bar>"
    by (simp add: power_int_minus_divide)
  have b: "sint (255 :: int64_t) < 2 ^ 22" "sint (128 :: int64_t) - sint (0 :: int64_t) < 2 ^ 22"
    by simp_all
  from forward_idempotent [OF v _ _ p s b]
  show ?thesis using v p s b by simp
qed

text \<open>
  C6 as stated fails for a range that reaches beyond \<open>2 ^ 22\<close>: with \<open>scale = 30\<close>,
  \<open>zero_point = 0\<close> and the range \<open>[0, 2 ^ 22 + 2 ^ 9]\<close> the element 125838992 goes to 125839024 (through \<open>q = 4194634\<close>;
  \<open>30 q = 125839020\<close> is not a float), and 125839024 goes to 125839048 (through
  \<open>q = 4194635\<close>).  It also fails for a small scale: for \<open>scale = 2 ^ - 128\<close> the float
  \<open>1 / scale\<close> is \<open>+\<infinity>\<close>, and with \<open>zero_point = 300\<close> above the range \<open>[0, 255]\<close> the element
  1 goes to \<open>- 45 * 2 ^ - 128\<close> (through \<open>q = 255\<close>), which goes to \<open>- 300 * 2 ^ - 128\<close>
  (through \<open>q = 0\<close>).
\<close>

theorem forward_not_idempotent_counterexample:
  "validator 0 0 4194816 0 0
   \<and> fake_quantize_per_tensor_affine_cuda
        [\<lparr>is_cuda = True, scalar_type = Float, sizes = [1], elems = [Fin 125838992]\<rparr>]
        0 (Fin 30) 0 0 4194816 0 0
      = Inr (1, [\<lparr>is_cuda = True, scalar_type = Float, sizes = [1], elems = [Fin 125838992]\<rparr>,
                 \<lparr>is_cuda = True, scalar_type = Float, sizes = [1], elems = [Fin 125839024]\<rparr>])
   \<and> fake_quantize_per_tensor_affine_cuda
        [\<lparr>is_cuda = True, scalar_type = Float, sizes = [1], elems = [Fin 125838992]\<rparr>,
         \<lparr>is_cuda = True, scalar_type = Float, sizes = [1], elems = [Fin 125839024]\<rparr>]
        1 (Fin 30) 0 0 4194816 0 0
      = Inr (2, [\<lparr>is_cuda = True, scalar_type = Float, sizes = [1], elems = [Fin 125838992]\<rparr>,
                 \<lparr>is_cuda = True, scalar_type = Float, sizes = [1], elems = [Fin 125839024]\<rparr>,
                 \<lparr>is_cuda = True, scalar_type = Float, sizes = [1], elems = [Fin 125839048]\<rparr>])
   \<and> \<not> same_value (Fin 125839048) (Fin 125839024)
   \<and> validator 300 0 255 0 0
   \<and> fake_quantize_per_tensor_affine_cuda
        [\<lparr>is_cuda = True, scalar_type = Float, sizes = [1], elems = [Fin 1]\<rparr>]
        0 (Fin (1 / 2 ^ 128)) 300 0 255 0 0
      = Inr (1, [\<lparr>is_cuda = True, scalar_type = Float, sizes = [1], elems = [Fin 1]\<rparr>,
                 \<lparr>is_cuda = True, scalar_type = Float, sizes = [1],
                    elems = [Fin (- 45 / 2 ^ 128)]\<rparr>])
   \<and> fake_quantize_per_tensor_affine_cuda
        [\<lparr>is_cuda = True, scalar_type = Float, sizes = [1], elems = [Fin 1]\<rparr>,
         \<lparr>is_cuda = True, scalar_type = Float, sizes = [1], elems = [Fin (- 45 / 2 ^ 128)]\<rparr>]
        1 (Fin (1 / 2 ^ 128)) 300 0 255 0 0
      = Inr (2, [\<lparr>is_cuda = True, scalar_type = Float, sizes = [1], elems = [Fin 1]\<rparr>,
                 \<lparr>is_cuda = True, scalar_type = Float, sizes = [1],
                    elems = [Fin (- 45 / 2 ^ 128)]\<rparr>,
                 \<lparr>is_cuda = True, scalar_type = Float, sizes = [1],
                    elems = [Fin (- 300 / 2 ^ 128)]\<rparr>])
   \<and> \<not> same_value (Fin (- 300 / 2 ^ 128)) (Fin (- 45 / 2 ^ 128))"
proof -
  let ?X = "\<lparr>is_cuda = True, scalar_type = Float, sizes = [1], elems = [Fin 125838992]\<rparr>"
  let ?Y = "\<lparr>is_cuda = True, scalar_type = Float, sizes = [1], elems = [Fin 125839024]\<rparr>"
  let ?Z = "\<lparr>is_cuda = True, scalar_type = Float, sizes = [1], elems = [Fin 125839048]\<rparr>"
  let ?s = "Fin (1 / 2 ^ 128)"
  let ?A = "\<lparr>is_cuda = True, scalar_type = Float, sizes = [1], elems = [Fin 1]\<rparr>"
  let ?B = "\<lparr>is_cuda = True, scalar_type = Float, sizes = [1], elems = [Fin (- 45 / 2 ^ 128)]\<rparr>"
  let ?C = "\<lparr>is_cuda = True, scalar_type = Float, sizes = [1], elems = [Fin (- 300 / 2 ^ 128)]\<rparr>"
  have p: "validator 0 0 4194816 0 0" "\<not> warm_up 0 0"
    by (simp_all add: validator_def warm_up_def)
  have k1: "forward_op (Fin 30) 0 0 4194816 (inv_scale_of (Fin 30)) (Fin 125838992)
      uninitialized = Fin 125839024"
    by code_simp
  have k2: "forward_op (Fin 30) 0 0 4194816 (inv_scale_of (Fin 30)) (Fin 125839024)
      uninitialized = Fin 125839048"
    by code_simp
  have v1: "valid [?X] 0" and v2: "valid [?X, ?Y] 1"
    by (simp_all add: valid_def wf_tensor_def numel_def)
  have f1: "fake_quantize_per_tensor_affine_cuda [?X] 0 (Fin 30) 0 0 4194816 0 0
      = Inr (1, [?X, ?Y])"
    using forward_kernel_eq [OF v1 _ _ p, of "Fin 30"] by (simp add: k1)
  have f2: "fake_quantize_per_tensor_affine_cuda [?X, ?Y] 1 (Fin 30) 0 0 4194816 0 0
      = Inr (2, [?X, ?Y, ?Z])"
    using forward_kernel_eq [OF v2 _ _ p, of "Fin 30"] by (simp add: k2)
  have n1: "\<not> same_value (Fin 125839048) (Fin 125839024)"
    by (simp add: same_value_def)
  have p': "validator 300 0 255 0 0"
    by (simp add: validator_def)
  have k3: "forward_op ?s 300 0 255 (inv_scale_of ?s) (Fin 1) uninitialized
      = Fin (- 45 / 2 ^ 128)"
    by code_simp
  have k4: "forward_op ?s 300 0 255 (inv_scale_of ?s) (Fin (- 45 / 2 ^ 128)) uninitialized
      = Fin (- 300 / 2 ^ 128)"
    by code_simp
  have v3: "valid [?A] 0" and v4: "valid [?A, ?B] 1"
    by (simp_all add: valid_def wf_tensor_def numel_def)
  have f3: "fake_quantize_per_tensor_affine_cuda [?A] 0 ?s 300 0 255 0 0 = Inr (1, [?A, ?B])"
    using forward_kernel_eq [OF v3 _ _ p' p(2), of ?s] k3 by simp
  have f4: "fake_quantize_per_tensor_affine_cuda [?A, ?B] 1 ?s 300 0 255 0 0
      = Inr (2, [?A, ?B, ?C])"
    using forward_kernel_eq [OF v4 _ _ p' p(2), of ?s] k4 by simp
  have n2: "\<not> same_value (Fin (- 300 / 2 ^ 128)) (Fin (- 45 / 2 ^ 128))"
    by (simp add: same_value_def)
  from p(1) f1 f2 n1 p' f3 f4 n2 show ?thesis by blast
qed

end
